theory Spec2Isabelle
  imports Main "HOL-Library.Sublist"
begin

section \<open>Python strings\<close>

text \<open>
  A Python \<open>str\<close> is modelled as a \<open>string\<close>, one \<open>char\<close> per code point. The
  whitespace and digit classes below are the ones Python applies to the code points 0 to
  255. The case tables are the ones of the code points 0 to 127 only: beyond them
  \<open>str.title\<close> and \<open>str.lower\<close> consult the Unicode tables, they can change the
  length of a string and leave the range of \<open>char\<close>, and they are not part of this
  development. Every statement below that depends on the case of a text therefore takes
  the text to be ASCII, \<open>is_ascii\<close>.
\<close>

abbreviation LF :: char where "LF \<equiv> CHR 0x0A"
abbreviation CR :: char where "CR \<equiv> CHR 0x0D"
abbreviation DQUOTE :: char where "DQUOTE \<equiv> CHR 0x22"
abbreviation COMMA :: char where "COMMA \<equiv> CHR '',''"

definition is_space :: "char \<Rightarrow> bool" where
  \<comment> \<open>\<open>str.isspace\<close> on one character: TAB, LF, VT, FF, CR, FS, GS, RS, US, SPACE, and
      beyond ASCII the next-line character and the no-break space\<close>
  "is_space c = (c \<in> set [CHR 0x09, CHR 0x0A, CHR 0x0B, CHR 0x0C, CHR 0x0D,
                            CHR 0x1C, CHR 0x1D, CHR 0x1E, CHR 0x1F, CHR 0x20,
                            CHR 0x85, CHR 0xA0])"

definition is_ascii :: "string \<Rightarrow> bool" where
  \<comment> \<open>\<open>s.isascii()\<close>: every code point is below 128\<close>
  "is_ascii s = list_all (\<lambda>c. of_char c < (128::nat)) s"

definition is_digit :: "char \<Rightarrow> bool" where
  \<comment> \<open>the regular expression class \<open>\d\<close>\<close>
  "is_digit c = (c \<in> set ''0123456789'')"

definition lowers :: string where "lowers = ''abcdefghijklmnopqrstuvwxyz''"
definition uppers :: string where "uppers = ''ABCDEFGHIJKLMNOPQRSTUVWXYZ''"

definition is_cased :: "char \<Rightarrow> bool" where
  \<comment> \<open>the cased characters of ASCII: the letters\<close>
  "is_cased c = (c \<in> set lowers \<or> c \<in> set uppers)"

definition to_upper :: "char \<Rightarrow> char" where
  \<comment> \<open>the upper case of an ASCII character\<close>
  "to_upper c = (case map_of (zip lowers uppers) c of Some u \<Rightarrow> u | None \<Rightarrow> c)"

definition to_lower :: "char \<Rightarrow> char" where
  \<comment> \<open>the lower case of an ASCII character\<close>
  "to_lower c = (case map_of (zip uppers lowers) c of Some l \<Rightarrow> l | None \<Rightarrow> c)"

definition py_strip :: "string \<Rightarrow> string" where
  \<comment> \<open>\<open>s.strip()\<close>: skip whitespace from the left, then from the right of what is left\<close>
  "py_strip s = rev (dropWhile is_space (rev (dropWhile is_space s)))"

definition py_lower :: "string \<Rightarrow> string" where
  \<comment> \<open>\<open>s.lower()\<close> on an ASCII string\<close>
  "py_lower s = map to_lower s"

fun do_title :: "bool \<Rightarrow> string \<Rightarrow> string" where
  \<comment> \<open>the loop of \<open>s.title()\<close> on an ASCII string; the flag is \<open>previous_is_cased\<close>\<close>
  "do_title previous_is_cased [] = []"
| "do_title previous_is_cased (c # cs) =
     (if previous_is_cased then to_lower c else to_upper c) # do_title (is_cased c) cs"

definition py_title :: "string \<Rightarrow> string" where
  \<comment> \<open>\<open>s.title()\<close> on an ASCII string\<close>
  "py_title s = do_title False s"

fun py_in :: "string \<Rightarrow> string \<Rightarrow> bool" where
  \<comment> \<open>\<open>needle in haystack\<close> on two strings\<close>
  "py_in needle [] = (needle = [])"
| "py_in needle (c # cs) = (prefix needle (c # cs) \<or> py_in needle cs)"

section \<open>Validation\<close>

subsection \<open>The regular expression of \<open>is_valid_phone\<close>\<close>

text \<open>
  The pattern \<^verbatim>\<open>^\(\d{3}\)\d{3}-\d{4}$\<close> is a plain sequence of items, so \<open>re.match\<close>
  walks it once from position 0. Without the MULTILINE flag \<open>^\<close> holds at position 0 only
  and \<open>$\<close> holds at the end of the string and also just before a line feed that is the last
  character of the string.
\<close>

datatype re_item = Bol | Eol | Lit char | Digit

fun match_items :: "re_item list \<Rightarrow> bool \<Rightarrow> string \<Rightarrow> bool" where
  \<comment> \<open>the flag says whether the position is 0; the string is the text from the position on\<close>
  "match_items [] at_start s = True"
| "match_items (Bol # r) at_start s = (at_start \<and> match_items r at_start s)"
| "match_items (Eol # r) at_start s = ((s = [] \<or> s = [LF]) \<and> match_items r at_start s)"
| "match_items (Lit c # r) at_start [] = False"
| "match_items (Lit c # r) at_start (x # xs) = (x = c \<and> match_items r False xs)"
| "match_items (Digit # r) at_start [] = False"
| "match_items (Digit # r) at_start (x # xs) = (is_digit x \<and> match_items r False xs)"

definition re_match :: "re_item list \<Rightarrow> string \<Rightarrow> bool" where
  \<comment> \<open>\<open>re.match(pattern, s) is not None\<close>\<close>
  "re_match p s = match_items p True s"

definition phone_pattern :: "re_item list" where
  "phone_pattern =
     [Bol, Lit (CHR ''('')] @ replicate 3 Digit @ [Lit (CHR '')'')] @ replicate 3 Digit @
     [Lit (CHR ''-'')] @ replicate 4 Digit @ [Eol]"

definition is_valid_phone :: "string \<Rightarrow> bool" where
  "is_valid_phone phone = re_match phone_pattern phone"

definition phone_format :: "string \<Rightarrow> bool" where
  \<comment> \<open>the specification's wording: the whole string is \<open>(XXX)XXX-XXXX\<close>, each \<open>X\<close> a digit\<close>
  "phone_format s =
     list_all2 (\<lambda>t c. if t = CHR ''X'' then is_digit c else c = t) ''(XXX)XXX-XXXX'' s"

definition is_valid_email :: "string \<Rightarrow> bool" where
  \<comment> \<open>the negation of the loop condition \<open>"@" not in email or "." not in email\<close>\<close>
  "is_valid_email email = (py_in ''@'' email \<and> py_in ''.'' email)"

subsection \<open>Name normalization\<close>

definition normalize_name :: "string \<Rightarrow> string" where
  \<comment> \<open>\<open>s.strip().title()\<close> on an ASCII string, as applied to the name read by add, remove
      and update\<close>
  "normalize_name s = py_title (py_strip s)"

fun spec_title :: "bool \<Rightarrow> string \<Rightarrow> string" where
  \<comment> \<open>the specification's wording: every whitespace-separated token gets its first
      character in upper case and the remainder in lower case; the flag says whether a
      token starts here\<close>
  "spec_title token_start [] = []"
| "spec_title token_start (c # cs) =
     (if is_space c then c # spec_title True cs
      else (if token_start then to_upper c else to_lower c) # spec_title False cs)"

definition spec_normalize_name :: "string \<Rightarrow> string" where
  "spec_normalize_name s = spec_title True (py_strip s)"

section \<open>Console, files and exceptions\<close>

text \<open>
  The functions of \<open>contact_manager.py\<close> read lines from the console, print, and open
  files. The world they run in is passed explicitly: the lines still waiting on standard
  input (without their line terminators), everything written to standard output so far,
  and the text of every file that exists. A call either returns a value or raises, and
  the world it leaves behind is kept in both cases.
\<close>

datatype pyerror = EOFError | KeyError | AttributeError | ValueError | CsvError

record world =
  stdin :: "string list"
  stdout :: string
  files :: "string \<rightharpoonup> string"

datatype 'a outcome = Return 'a world | Raise pyerror world

fun bind :: "'a outcome \<Rightarrow> ('a \<Rightarrow> world \<Rightarrow> 'b outcome) \<Rightarrow> 'b outcome" where
  "bind (Return x w) f = f x w"
| "bind (Raise e w) f = Raise e w"

definition py_print :: "string \<Rightarrow> world \<Rightarrow> world" where
  \<comment> \<open>\<open>print(s)\<close>\<close>
  "py_print s w = w\<lparr>stdout := stdout w @ s @ [LF]\<rparr>"

definition py_input :: "string \<Rightarrow> world \<Rightarrow> string outcome" where
  \<comment> \<open>\<open>input(prompt)\<close>: the prompt is written, one line is read; end of input raises\<close>
  "py_input prompt w =
     (case stdin w of
        [] \<Rightarrow> Raise EOFError (w\<lparr>stdout := stdout w @ prompt\<rparr>)
      | l # ls \<Rightarrow> Return l (w\<lparr>stdin := ls, stdout := stdout w @ prompt\<rparr>))"

section \<open>Contacts\<close>

text \<open>
  A contact is a Python dictionary. Its keys are strings, except that \<open>csv.DictReader\<close>
  files the surplus fields of a long row as a list under the key \<open>None\<close>; its values
  under string keys are strings, or \<open>None\<close> where \<open>csv.DictReader\<close> pads a short row.
  \<open>items\<close> is the part under string keys and \<open>rest\<close> the entry under \<open>None\<close>, so that
  equality of two contacts is Python's \<open>==\<close> on the dictionaries. Every dictionary in the
  list is an object of its own (\<open>add_contact\<close> and the reader build a new one each time),
  so assigning to a key of one of them changes one position of the list.
\<close>

datatype pyval = Str string | PyNone

record contact =
  items :: "string \<rightharpoonup> pyval"
  rest :: "string list option"

abbreviation APOS :: char where "APOS \<equiv> CHR 0x27"

definition mk_contact :: "string \<Rightarrow> string \<Rightarrow> string \<Rightarrow> contact" where
  \<comment> \<open>the literal \<open>{"Full Name": full_name, "phone": phone, "email": email}\<close>\<close>
  "mk_contact full_name phone email =
     \<lparr>items = [''Full Name'' \<mapsto> Str full_name, ''phone'' \<mapsto> Str phone, ''email'' \<mapsto> Str email],
      rest = None\<rparr>"

definition getitem :: "contact \<Rightarrow> string \<Rightarrow> pyerror + pyval" where
  \<comment> \<open>\<open>contact[key]\<close>\<close>
  "getitem c key = (case items c key of None \<Rightarrow> Inl KeyError | Some v \<Rightarrow> Inr v)"

definition py_str :: "pyval \<Rightarrow> string" where
  \<comment> \<open>how an f-string renders a value\<close>
  "py_str v = (case v of Str s \<Rightarrow> s | PyNone \<Rightarrow> ''None'')"

definition is_contact :: "contact \<Rightarrow> bool" where
  \<comment> \<open>the Contact of the data model: exactly the three fields, each a string\<close>
  "is_contact c =
     (rest c = None \<and> dom (items c) = {''Full Name'', ''phone'', ''email''} \<and>
      PyNone \<notin> ran (items c))"

definition valid_contact :: "contact \<Rightarrow> bool" where
  \<comment> \<open>the phone and the email of the contact pass the two validity predicates\<close>
  "valid_contact c =
     ((case items c ''phone'' of Some (Str p) \<Rightarrow> is_valid_phone p | _ \<Rightarrow> False) \<and>
      (case items c ''email'' of Some (Str e) \<Rightarrow> is_valid_email e | _ \<Rightarrow> False))"

subsection \<open>add\<close>

definition invalid_phone_msg :: string where
  "invalid_phone_msg = ''Invalid phone format. Please follow the format (XXX)XXX-XXXX.''"

function phone_loop :: "string \<Rightarrow> string \<Rightarrow> world \<Rightarrow> string outcome" where
  \<comment> \<open>\<open>while not is_valid_phone(phone): print(...); phone = input(prompt).strip()\<close>\<close>
  "phone_loop prompt phone w =
     (if \<not> is_valid_phone phone then
        (case py_input prompt (py_print invalid_phone_msg w) of
           Raise e w' \<Rightarrow> Raise e w'
         | Return l w' \<Rightarrow> phone_loop prompt (py_strip l) w')
      else Return phone w)"
  by pat_completeness auto
termination
  by (relation "measure (\<lambda>(prompt, phone, w). length (stdin w))")
     (auto simp: py_input_def py_print_def split: list.splits)

function email_loop :: "string \<Rightarrow> world \<Rightarrow> string outcome" where
  \<comment> \<open>\<open>while "@" not in email or "." not in email: print(...); email = input(...).strip()\<close>\<close>
  "email_loop email w =
     (if \<not> py_in ''@'' email \<or> \<not> py_in ''.'' email then
        (case py_input ''Enter email: ''
                (py_print (''Invalid email. It must contain '' @ [APOS] @ ''@'' @ [APOS] @
                           '' and '' @ [APOS] @ ''.'' @ [APOS] @ ''.'') w) of
           Raise e w' \<Rightarrow> Raise e w'
         | Return l w' \<Rightarrow> email_loop (py_strip l) w')
      else Return email w)"
  by pat_completeness auto
termination
  by (relation "measure (\<lambda>(email, w). length (stdin w))")
     (auto simp: py_input_def py_print_def split: list.splits)

declare phone_loop.simps [simp del] email_loop.simps [simp del]

definition add_prompt :: string where
  "add_prompt = ''Enter phone number (Format: (XXX)XXX-XXXX): ''"

definition add_contact :: "contact list \<Rightarrow> world \<Rightarrow> contact list outcome" where
  "add_contact contacts w =
     bind (py_input ''Enter full name: '' w) (\<lambda>l1 w1.
     bind (py_input add_prompt w1) (\<lambda>l2 w2.
     bind (phone_loop add_prompt (py_strip l2) w2) (\<lambda>phone w3.
     bind (py_input ''Enter email: '' w3) (\<lambda>l3 w4.
     bind (email_loop (py_strip l3) w4) (\<lambda>email w5.
       Return (contacts @ [mk_contact (py_title (py_strip l1)) phone (py_lower email)])
              (py_print ''Contact added successfully!'' w5))))))"

subsection \<open>search\<close>

definition found_line :: "contact \<Rightarrow> pyerror + string" where
  \<comment> \<open>the f-string \<open>Found: {contact['Full Name']}, Phone: {contact['phone']}, Email: {contact['email']}\<close>\<close>
  "found_line c =
     (case getitem c ''Full Name'' of Inl e \<Rightarrow> Inl e | Inr n \<Rightarrow>
     (case getitem c ''phone'' of Inl e \<Rightarrow> Inl e | Inr p \<Rightarrow>
     (case getitem c ''email'' of Inl e \<Rightarrow> Inl e | Inr m \<Rightarrow>
        Inr (''Found: '' @ py_str n @ '', Phone: '' @ py_str p @ '', Email: '' @ py_str m))))"

fun search_loop :: "string \<Rightarrow> contact list \<Rightarrow> bool \<Rightarrow> world \<Rightarrow> bool outcome" where
  \<comment> \<open>the \<open>for\<close> loop of \<open>search_contact\<close>; the flag is \<open>found\<close>\<close>
  "search_loop search_term [] found w = Return found w"
| "search_loop search_term (c # cs) found w =
     (case getitem c ''Full Name'' of
        Inl e \<Rightarrow> Raise e w
      | Inr PyNone \<Rightarrow> Raise AttributeError w
      | Inr (Str n) \<Rightarrow>
          if py_in search_term (py_lower n) then
            (case found_line c of
               Inl e \<Rightarrow> Raise e w
             | Inr line \<Rightarrow> search_loop search_term cs True (py_print line w))
          else search_loop search_term cs found w)"

definition search_contact :: "contact list \<Rightarrow> world \<Rightarrow> unit outcome" where
  "search_contact contacts w =
     bind (py_input ''Enter the name of the contact to search for: '' w) (\<lambda>l w1.
     bind (search_loop (py_lower (py_strip l)) contacts False w1) (\<lambda>found w2.
       if \<not> found then Return () (py_print ''Contact not found.'' w2) else Return () w2))"

subsection \<open>remove\<close>

definition not_found_msg :: "string \<Rightarrow> string" where
  "not_found_msg name = ''No contact found with the name '' @ [APOS] @ name @ [APOS] @ ''.''"

definition removed_msg :: "string \<Rightarrow> string" where
  "removed_msg name = ''Contact '' @ [APOS] @ name @ [APOS] @ '' removed successfully.''"

fun remove_loop :: "string \<Rightarrow> contact list \<Rightarrow> contact list \<Rightarrow> world \<Rightarrow> contact list outcome" where
  \<comment> \<open>the \<open>for\<close> loop of \<open>remove_contact\<close> over the contacts still to visit;
      \<open>contacts.remove(contact)\<close> deletes the first element equal to \<open>contact\<close>\<close>
  "remove_loop name [] contacts w = Return contacts (py_print (not_found_msg name) w)"
| "remove_loop name (c # cs) contacts w =
     (case getitem c ''Full Name'' of
        Inl e \<Rightarrow> Raise e w
      | Inr v \<Rightarrow>
          if v = Str name then Return (remove1 c contacts) (py_print (removed_msg name) w)
          else remove_loop name cs contacts w)"

definition remove_contact :: "contact list \<Rightarrow> world \<Rightarrow> contact list outcome" where
  "remove_contact contacts w =
     bind (py_input ''Enter the name of the contact to remove: '' w) (\<lambda>l w1.
       remove_loop (py_title (py_strip l)) contacts contacts w1)"

subsection \<open>update\<close>

definition update_prompt :: string where
  "update_prompt = ''Enter the new phone number (Format: (XXX)XXX-XXXX): ''"

definition updated_msg :: "string \<Rightarrow> string" where
  "updated_msg name = ''Phone number for '' @ [APOS] @ name @ [APOS] @ '' updated successfully.''"

definition set_phone :: "contact \<Rightarrow> string \<Rightarrow> contact" where
  \<comment> \<open>\<open>contact['phone'] = new_phone\<close>\<close>
  "set_phone c new_phone = c\<lparr>items := (items c)(''phone'' \<mapsto> Str new_phone)\<rparr>"

fun update_loop :: "string \<Rightarrow> contact list \<Rightarrow> contact list \<Rightarrow> world \<Rightarrow> contact list outcome" where
  \<comment> \<open>the \<open>for\<close> loop of \<open>update_contact\<close>: the contacts already visited, then the ones
      still to visit; the assignment to \<open>contact['phone']\<close> changes the dictionary in its place\<close>
  "update_loop name visited [] w = Return visited (py_print (not_found_msg name) w)"
| "update_loop name visited (c # cs) w =
     (case getitem c ''Full Name'' of
        Inl e \<Rightarrow> Raise e w
      | Inr v \<Rightarrow>
          if v = Str name then
            bind (py_input update_prompt w) (\<lambda>l w1.
            bind (phone_loop update_prompt (py_strip l) w1) (\<lambda>new_phone w2.
              Return (visited @ set_phone c new_phone # cs)
                     (py_print (updated_msg name) w2)))
          else update_loop name (visited @ [c]) cs w)"

definition update_contact :: "contact list \<Rightarrow> world \<Rightarrow> contact list outcome" where
  "update_contact contacts w =
     bind (py_input ''Enter the name of the contact to update: '' w) (\<lambda>l w1.
       update_loop (py_title (py_strip l)) [] contacts w1)"

section \<open>Persistence\<close>

subsection \<open>Text files\<close>

text \<open>
  \<open>save_contacts\<close> opens the file with \<open>newline=''\<close>: what is written is stored as it
  is. \<open>load_contacts\<close> opens it with \<open>mode='r'\<close> alone, so reading goes through the
  universal newlines translation: CR LF and a lone CR both arrive as LF. Iterating over
  the file yields its lines, each with its final LF, the last one possibly without.
\<close>

fun translate_newlines :: "string \<Rightarrow> string" where
  "translate_newlines [] = []"
| "translate_newlines (c # cs) =
     (if c = CR then
        (case cs of
           [] \<Rightarrow> [LF]
         | d # ds \<Rightarrow> if d = LF then LF # translate_newlines ds else LF # translate_newlines cs)
      else c # translate_newlines cs)"

fun split_lines :: "string \<Rightarrow> string list" where
  "split_lines [] = []"
| "split_lines (c # cs) =
     (if c = LF then [c] # split_lines cs
      else (case split_lines cs of [] \<Rightarrow> [[c]] | l # ls \<Rightarrow> (c # l) # ls))"

definition file_lines :: "string \<Rightarrow> string list" where
  "file_lines text = split_lines (translate_newlines text)"

subsection \<open>The writer of the \<open>csv\<close> module, \<open>excel\<close> dialect\<close>

text \<open>
  Delimiter comma, quote character \<open>"\<close>, doubled inside a quoted field, line terminator
  CR LF, minimal quoting, no escape character.
\<close>

definition needs_quotes :: "char \<Rightarrow> bool" where
  \<comment> \<open>the delimiter, the quote character, and the characters of the line terminator\<close>
  "needs_quotes c = (c = COMMA \<or> c = DQUOTE \<or> c = CR \<or> c = LF)"

fun double_quotes :: "string \<Rightarrow> string" where
  "double_quotes [] = []"
| "double_quotes (c # cs) = (if c = DQUOTE then DQUOTE # c # double_quotes cs else c # double_quotes cs)"

definition join_append :: "string \<Rightarrow> string" where
  \<comment> \<open>one field as it is written\<close>
  "join_append field =
     (if list_ex needs_quotes field then [DQUOTE] @ double_quotes field @ [DQUOTE] else field)"

fun join_fields :: "string list \<Rightarrow> string" where
  "join_fields [] = []"
| "join_fields [f] = join_append f"
| "join_fields (f # g # fs) = join_append f @ [COMMA] @ join_fields (g # fs)"

definition writerow :: "string list \<Rightarrow> string" where
  \<comment> \<open>a row of one empty field is written as a pair of quotes\<close>
  "writerow row = (if row = [[]] then [DQUOTE, DQUOTE] else join_fields row) @ [CR, LF]"

definition fieldnames :: "string list" where
  "fieldnames = [''Full Name'', ''phone'', ''email'']"

definition dict_to_list :: "contact \<Rightarrow> pyerror + string list" where
  \<comment> \<open>\<open>DictWriter._dict_to_list\<close> with \<open>extrasaction='raise'\<close> and \<open>restval=''\<close>, followed
      by the writer's rendering of a value: \<open>None\<close> is written as the empty string\<close>
  "dict_to_list c =
     (if rest c \<noteq> None \<or> \<not> dom (items c) \<subseteq> set fieldnames then Inl ValueError
      else Inr (map (\<lambda>key. case items c key of None \<Rightarrow> [] | Some PyNone \<Rightarrow> [] | Some (Str s) \<Rightarrow> s)
                    fieldnames))"

definition write_file :: "string \<Rightarrow> string \<Rightarrow> world \<Rightarrow> world" where
  \<comment> \<open>the file holds the text when it is closed\<close>
  "write_file filename text w = w\<lparr>files := (files w)(filename \<mapsto> text)\<rparr>"

fun write_rows :: "contact list \<Rightarrow> string \<Rightarrow> string \<Rightarrow> world \<Rightarrow> unit outcome" where
  \<comment> \<open>the \<open>for\<close> loop of \<open>save_contacts\<close>; \<open>text\<close> is what has been written so far, and it
      is what the file holds when the \<open>with\<close> block is left, normally or not\<close>
  "write_rows [] filename text w = Return () (write_file filename text w)"
| "write_rows (c # cs) filename text w =
     (case dict_to_list c of
        Inl e \<Rightarrow> Raise e (write_file filename text w)
      | Inr row \<Rightarrow> write_rows cs filename (text @ writerow row) w)"

definition save_contacts :: "contact list \<Rightarrow> string \<Rightarrow> world \<Rightarrow> unit outcome" where
  "save_contacts contacts filename w = write_rows contacts filename (writerow fieldnames) w"

subsection \<open>The reader of the \<open>csv\<close> module, \<open>excel\<close> dialect\<close>

text \<open>
  The reader is the state machine of \<open>parse_process_char\<close> (CPython 3.11 and later,
  where a line may hold a null character), fed the characters of each line and an
  end-of-line signal after each line. Its three states for an escape character
  are left out: the dialect has none. A field stops growing at the module's field size
  limit, 131072 characters, where the reader raises \<open>csv.Error\<close>.
\<close>

datatype parser_state =
  START_RECORD | START_FIELD | IN_FIELD | IN_QUOTED_FIELD | QUOTE_IN_QUOTED_FIELD | EAT_CRNL

datatype input_char = Ch char | EOL

record reader =
  state :: parser_state
  parsed_fields :: "string list"
  field :: string

definition field_limit :: nat where
  "field_limit = 131072"

definition parse_reset :: reader where
  "parse_reset = \<lparr>state = START_RECORD, parsed_fields = [], field = []\<rparr>"

definition parse_save_field :: "reader \<Rightarrow> reader" where
  "parse_save_field r = r\<lparr>parsed_fields := parsed_fields r @ [field r], field := []\<rparr>"

definition parse_add_char :: "reader \<Rightarrow> char \<Rightarrow> pyerror + reader" where
  "parse_add_char r c =
     (if length (field r) \<ge> field_limit then Inl CsvError else Inr (r\<lparr>field := field r @ [c]\<rparr>))"

definition add_char_then :: "parser_state \<Rightarrow> reader \<Rightarrow> char \<Rightarrow> pyerror + reader" where
  \<comment> \<open>\<open>parse_add_char\<close> followed by the assignment of the next state\<close>
  "add_char_then s r c =
     (case parse_add_char r c of Inl e \<Rightarrow> Inl e | Inr r' \<Rightarrow> Inr (r'\<lparr>state := s\<rparr>))"

definition start_field :: "reader \<Rightarrow> input_char \<Rightarrow> pyerror + reader" where
  \<comment> \<open>the case \<open>START_FIELD\<close>, which the case \<open>START_RECORD\<close> falls through to\<close>
  "start_field r c =
     (case c of
        EOL \<Rightarrow> Inr ((parse_save_field r)\<lparr>state := START_RECORD\<rparr>)
      | Ch x \<Rightarrow>
          if x = LF \<or> x = CR then Inr ((parse_save_field r)\<lparr>state := EAT_CRNL\<rparr>)
          else if x = DQUOTE then Inr (r\<lparr>state := IN_QUOTED_FIELD\<rparr>)
          else if x = COMMA then Inr (parse_save_field r)
          else add_char_then IN_FIELD r x)"

definition parse_process_char :: "reader \<Rightarrow> input_char \<Rightarrow> pyerror + reader" where
  "parse_process_char r c =
     (case state r of
        START_RECORD \<Rightarrow>
          (case c of
             EOL \<Rightarrow> Inr r
           | Ch x \<Rightarrow>
               if x = LF \<or> x = CR then Inr (r\<lparr>state := EAT_CRNL\<rparr>)
               else start_field (r\<lparr>state := START_FIELD\<rparr>) c)
      | START_FIELD \<Rightarrow> start_field r c
      | IN_FIELD \<Rightarrow>
          (case c of
             EOL \<Rightarrow> Inr ((parse_save_field r)\<lparr>state := START_RECORD\<rparr>)
           | Ch x \<Rightarrow>
               if x = LF \<or> x = CR then Inr ((parse_save_field r)\<lparr>state := EAT_CRNL\<rparr>)
               else if x = COMMA then Inr ((parse_save_field r)\<lparr>state := START_FIELD\<rparr>)
               else parse_add_char r x)
      | IN_QUOTED_FIELD \<Rightarrow>
          (case c of
             EOL \<Rightarrow> Inr r
           | Ch x \<Rightarrow>
               if x = DQUOTE then Inr (r\<lparr>state := QUOTE_IN_QUOTED_FIELD\<rparr>)
               else parse_add_char r x)
      | QUOTE_IN_QUOTED_FIELD \<Rightarrow>
          (case c of
             EOL \<Rightarrow> Inr ((parse_save_field r)\<lparr>state := START_RECORD\<rparr>)
           | Ch x \<Rightarrow>
               if x = DQUOTE then add_char_then IN_QUOTED_FIELD r x
               else if x = COMMA then Inr ((parse_save_field r)\<lparr>state := START_FIELD\<rparr>)
               else if x = LF \<or> x = CR then Inr ((parse_save_field r)\<lparr>state := EAT_CRNL\<rparr>)
               else add_char_then IN_FIELD r x)
      | EAT_CRNL \<Rightarrow>
          (case c of
             EOL \<Rightarrow> Inr (r\<lparr>state := START_RECORD\<rparr>)
           | Ch x \<Rightarrow> if x = LF \<or> x = CR then Inr r else Inl CsvError))"

fun process_line :: "reader \<Rightarrow> string \<Rightarrow> pyerror + reader" where
  \<comment> \<open>the characters of one line, then the end-of-line signal\<close>
  "process_line r [] = parse_process_char r EOL"
| "process_line r (c # cs) =
     (case parse_process_char r (Ch c) of Inl e \<Rightarrow> Inl e | Inr r' \<Rightarrow> process_line r' cs)"

fun iternext :: "reader \<Rightarrow> string list \<Rightarrow> pyerror + (string list \<times> string list) option" where
  \<comment> \<open>the \<open>do ... while\<close> loop of \<open>Reader_iternext\<close>: one row and the lines left, or
      nothing at the end of the input\<close>
  "iternext r [] =
     (if field r \<noteq> [] \<or> state r = IN_QUOTED_FIELD
      then Inr (Some (parsed_fields (parse_save_field r), []))
      else Inr None)"
| "iternext r (line # lines) =
     (case process_line r line of
        Inl e \<Rightarrow> Inl e
      | Inr r' \<Rightarrow>
          if state r' \<noteq> START_RECORD then iternext r' lines
          else Inr (Some (parsed_fields r', lines)))"

lemma iternext_shorter:
  "iternext r lines = Inr (Some (row, lines')) \<Longrightarrow> lines \<noteq> [] \<Longrightarrow> length lines' < length lines"
proof (induction lines arbitrary: r)
  case Nil
  then show ?case by simp
next
  case (Cons line lines)
  show ?case
  proof (cases "process_line r line")
    case (Inl e)
    with Cons.prems show ?thesis by simp
  next
    case (Inr r')
    show ?thesis
    proof (cases "state r' \<noteq> START_RECORD")
      case False
      with Inr Cons.prems show ?thesis by simp
    next
      case True
      with Inr Cons.prems have *: "iternext r' lines = Inr (Some (row, lines'))" by simp
      show ?thesis
      proof (cases lines)
        case Nil
        with * show ?thesis by (simp split: if_splits)
      next
        case (Cons a list)
        with Cons.IH [OF *] show ?thesis by simp
      qed
    qed
  qed
qed

lemma iternext_reset_shorter:
  assumes "iternext parse_reset lines = Inr (Some (row, lines'))"
  shows "length lines' < length lines"
proof (cases lines)
  case Nil
  with assms show ?thesis by (simp add: parse_reset_def)
next
  case (Cons line rest)
  with iternext_shorter [OF assms] show ?thesis by simp
qed

function reader_rows :: "string list \<Rightarrow> pyerror + string list list" where
  \<comment> \<open>all the rows the reader yields, each read from a reset parser\<close>
  "reader_rows lines =
     (case iternext parse_reset lines of
        Inl e \<Rightarrow> Inl e
      | Inr None \<Rightarrow> Inr []
      | Inr (Some (row, lines')) \<Rightarrow>
          (case reader_rows lines' of Inl e \<Rightarrow> Inl e | Inr rows \<Rightarrow> Inr (row # rows)))"
  by pat_completeness auto
termination
  by (relation "measure length") (auto dest: iternext_reset_shorter)

declare reader_rows.simps [simp del]

definition dict_row :: "string list \<Rightarrow> string list \<Rightarrow> contact" where
  \<comment> \<open>\<open>DictReader.__next__\<close> on a row that is not empty: \<open>dict(zip(fieldnames, row))\<close>, the
      surplus of a long row under \<open>None\<close>, \<open>None\<close> for the fields a short row lacks\<close>
  "dict_row names row =
     (let d = fold (\<lambda>(key, v) m. m(key \<mapsto> Str v)) (zip names row) Map.empty
      in if length names < length row then \<lparr>items = d, rest = Some (drop (length names) row)\<rparr>
         else \<lparr>items = fold (\<lambda>key m. m(key \<mapsto> PyNone)) (drop (length row) names) d, rest = None\<rparr>)"

definition dict_reader :: "string list \<Rightarrow> pyerror + contact list" where
  \<comment> \<open>the first row gives the field names; empty rows after it are skipped\<close>
  "dict_reader lines =
     (case reader_rows lines of
        Inl e \<Rightarrow> Inl e
      | Inr [] \<Rightarrow> Inr []
      | Inr (names # rows) \<Rightarrow> Inr (map (dict_row names) (filter (\<lambda>row. row \<noteq> []) rows)))"

definition load_contacts :: "string \<Rightarrow> world \<Rightarrow> contact list outcome" where
  "load_contacts filename w =
     (case files w filename of
        None \<Rightarrow>
          Return [] (py_print (''File '' @ filename @
                               '' not found. Starting with an empty contact list.'') w)
      | Some text \<Rightarrow>
          (case dict_reader (file_lines text) of
             Inl e \<Rightarrow> Raise e w
           | Inr contacts \<Rightarrow> Return contacts w))"

section \<open>The specification's reading of search, and sample contacts\<close>

definition matches_term :: "string \<Rightarrow> contact \<Rightarrow> bool" where
  \<comment> \<open>the lower-cased full name of the contact contains the term\<close>
  "matches_term t c =
     (case items c ''Full Name'' of Some (Str n) \<Rightarrow> py_in t (py_lower n) | _ \<Rightarrow> False)"

definition find_all_matching :: "contact list \<Rightarrow> string \<Rightarrow> contact list" where
  \<comment> \<open>the specification's wording: the contacts whose full name contains the substring,
      letter case ignored, in store order\<close>
  "find_all_matching store sub = filter (matches_term (py_lower sub)) store"

definition field_text :: "contact \<Rightarrow> string \<Rightarrow> string" where
  "field_text c key = (case items c key of Some v \<Rightarrow> py_str v | None \<Rightarrow> [])"

definition report_line :: "contact \<Rightarrow> string" where
  \<comment> \<open>the line printed for one match\<close>
  "report_line c =
     ''Found: '' @ field_text c ''Full Name'' @ '', Phone: '' @ field_text c ''phone'' @
     '', Email: '' @ field_text c ''email'' @ [LF]"

definition search_report :: "contact list \<Rightarrow> string" where
  \<comment> \<open>what the search prints for a list of matches\<close>
  "search_report found =
     (if found = [] then ''Contact not found.'' @ [LF] else concat (map report_line found))"

definition john1 :: contact where
  "john1 = mk_contact ''John Smith'' ''(555)123-4567'' ''john@example.com''"

definition john2 :: contact where
  "john2 = mk_contact ''John Smith'' ''(555)765-4321'' ''js@example.org''"

definition jane :: contact where
  "jane = mk_contact ''Jane Johnson'' ''(555)000-1111'' ''jane@example.com''"

definition ann :: contact where
  "ann = mk_contact ''Ann Lee'' ''(555)444-5555'' ''ann@example.com''"

definition joe :: contact where
  "joe = mk_contact ''Joe Blacksmith'' ''(555)222-3333'' ''joe@example.com''"

definition console :: "string list \<Rightarrow> world" where
  \<comment> \<open>a session with the given lines typed in, nothing printed yet and no file\<close>
  "console lines = \<lparr>stdin = lines, stdout = [], files = Map.empty\<rparr>"


section \<open>Sessions\<close>

text \<open>
  \<open>main\<close> takes the list that \<open>load_contacts\<close> returns for \<open>contacts.csv\<close> as its
  store and then calls add, view, search, remove and update on it, in the order of the
  choices typed in, until a call raises or the store is saved. View and search leave the
  list as it is. \<open>reachable w0 s\<close> says that \<open>s\<close> is a store of a session started in the
  world \<open>w0\<close>; the menu and the choice that \<open>main\<close> prints and reads between two calls
  are not modelled, so each call may find any console, with ASCII lines to read.
\<close>

inductive reachable :: "world \<Rightarrow> contact list \<Rightarrow> bool" for w0 :: world where
  loaded: "load_contacts ''contacts.csv'' w0 = Return s w \<Longrightarrow> reachable w0 s"
| added: "reachable w0 s \<Longrightarrow> list_all is_ascii (stdin w) \<Longrightarrow>
          add_contact s w = Return s' w' \<Longrightarrow> reachable w0 s'"
| removed: "reachable w0 s \<Longrightarrow> list_all is_ascii (stdin w) \<Longrightarrow>
            remove_contact s w = Return s' w' \<Longrightarrow> reachable w0 s'"
| updated: "reachable w0 s \<Longrightarrow> list_all is_ascii (stdin w) \<Longrightarrow>
            update_contact s w = Return s' w' \<Longrightarrow> reachable w0 s'"

definition bad_file :: string where
  \<comment> \<open>a file whose one row holds a phone and an email that pass neither predicate\<close>
  "bad_file = ''Full Name,phone,email'' @ [LF] @ ''Bob,123,bob'' @ [LF]"

subsection \<open>Contacts and the file\<close>

definition csv_safe :: "contact \<Rightarrow> bool" where
  \<comment> \<open>a Contact whose three fields are ASCII, hold no carriage return and fit the
      reader's field size limit\<close>
  "csv_safe c =
     (is_contact c \<and>
      list_all (\<lambda>key. case items c key of
                         Some (Str s) \<Rightarrow> is_ascii s \<and> CR \<notin> set s \<and> length s \<le> field_limit
                       | _ \<Rightarrow> False) fieldnames)"

definition long_name :: string where
  \<comment> \<open>a name of one character more than the field size limit\<close>
  "long_name = replicate 131073 (CHR ''a'')"

definition long_contact :: contact where
  "long_contact = mk_contact long_name ''(555)123-4567'' ''a@b.c''"

definition quoted_contact :: contact where
  \<comment> \<open>a name with a comma, two quotes and a line feed\<close>
  "quoted_contact =
     mk_contact (''Smith, '' @ [DQUOTE] @ ''Jo'' @ [DQUOTE] @ [LF] @ ''Jr'')
       ''(555)123-4567'' ''jo@example.com''"

section \<open>Properties of the validation functions\<close>

subsection \<open>Phone numbers\<close>

fun item_ok :: "re_item \<Rightarrow> char \<Rightarrow> bool" where
  "item_ok (Lit c) x = (x = c)"
| "item_ok Digit x = is_digit x"
| "item_ok Bol x = False"
| "item_ok Eol x = False"

lemma match_items_body:
  "\<forall>i\<in>set its. i \<noteq> Bol \<and> i \<noteq> Eol \<Longrightarrow>
   match_items (its @ [Eol]) b s \<longleftrightarrow>
     (\<exists>p r. s = p @ r \<and> (r = [] \<or> r = [LF]) \<and> list_all2 item_ok its p)"
proof (induction its arbitrary: b s)
  case Nil
  then show ?case by auto
next
  case (Cons i its)
  show ?case
  proof (cases s)
    case Nil
    with Cons.prems show ?thesis by (cases i) auto
  next
    case (Cons x xs)
    have IH: "\<And>b. match_items (its @ [Eol]) b xs \<longleftrightarrow>
       (\<exists>p r. xs = p @ r \<and> (r = [] \<or> r = [LF]) \<and> list_all2 item_ok its p)"
      using Cons.IH Cons.prems by simp
    from Cons.prems have "i \<noteq> Bol" "i \<noteq> Eol" by auto
    then show ?thesis
      using IH Cons
      by (cases i) (auto simp: list_all2_Cons1 Cons_eq_append_conv)
  qed
qed

lemma phone_format_items:
  "list_all2 item_ok ([Lit (CHR ''('')] @ replicate 3 Digit @ [Lit (CHR '')'')] @ replicate 3 Digit @
     [Lit (CHR ''-'')] @ replicate 4 Digit) p \<longleftrightarrow> phone_format p"
  by (simp add: phone_format_def numeral_3_eq_3 numeral_Bit0 list_all2_Cons1)

lemma is_valid_phone_iff:
  "is_valid_phone s \<longleftrightarrow> phone_format s \<or> (\<exists>p. s = p @ [LF] \<and> phone_format p)"
proof -
  let ?its = "[Lit (CHR ''('')] @ replicate 3 Digit @ [Lit (CHR '')'')] @ replicate 3 Digit @
     [Lit (CHR ''-'')] @ replicate 4 Digit"
  have "is_valid_phone s \<longleftrightarrow> match_items (?its @ [Eol]) True s"
    by (simp add: is_valid_phone_def re_match_def phone_pattern_def)
  also have "\<dots> \<longleftrightarrow> (\<exists>p r. s = p @ r \<and> (r = [] \<or> r = [LF]) \<and> list_all2 item_ok ?its p)"
    by (rule match_items_body) (simp add: numeral_3_eq_3 numeral_Bit0)
  also have "\<dots> \<longleftrightarrow> (\<exists>p r. s = p @ r \<and> (r = [] \<or> r = [LF]) \<and> phone_format p)"
    unfolding phone_format_items ..
  also have "\<dots> \<longleftrightarrow> phone_format s \<or> (\<exists>p. s = p @ [LF] \<and> phone_format p)"
    by auto
  finally show ?thesis .
qed

lemma length_do_title: "length (do_title b t) = length t"
  by (induction t arbitrary: b) auto

lemma nth_do_title:
  "i < length t \<Longrightarrow>
   do_title b t ! i =
     (if (if i = 0 then b else is_cased (t ! (i - 1))) then to_lower (t ! i) else to_upper (t ! i))"
proof (induction t arbitrary: b i)
  case Nil
  then show ?case by simp
next
  case (Cons c cs)
  show ?case
  proof (cases i)
    case 0
    then show ?thesis by simp
  next
    case (Suc j)
    with Cons.prems have "j < length cs" by simp
    from Cons.IH [OF this, of "is_cased c"] Suc show ?thesis
      by (cases j) auto
  qed
qed

lemma space_not_cased: "is_space c \<Longrightarrow> \<not> is_cased c"
  by (auto simp: is_space_def is_cased_def lowers_def uppers_def)

lemma to_upper_uncased: "\<not> is_cased c \<Longrightarrow> to_upper c = c"
  by (auto simp: to_upper_def is_cased_def lowers_def uppers_def)

lemma to_lower_uncased: "\<not> is_cased c \<Longrightarrow> to_lower c = c"
  by (auto simp: to_lower_def is_cased_def lowers_def uppers_def)

lemma do_title_spec_title:
  "\<forall>c\<in>set t. is_cased c \<or> is_space c \<Longrightarrow> do_title b t = spec_title (\<not> b) t"
proof (induction t arbitrary: b)
  case Nil
  then show ?case by simp
next
  case (Cons c cs)
  then have IH: "\<And>b. do_title b cs = spec_title (\<not> b) cs" by simp
  show ?case
  proof (cases "is_space c")
    case True
    then show ?thesis
      using IH [of False] space_not_cased [OF True]
      by (simp add: to_upper_uncased to_lower_uncased)
  next
    case False
    with Cons.prems have "is_cased c" by simp
    with False show ?thesis using IH [of True] by simp
  qed
qed

lemma py_strip_decomp:
  "\<exists>l r. s = l @ py_strip s @ r \<and> list_all is_space l \<and> list_all is_space r"
proof -
  let ?l = "takeWhile is_space s"
  let ?m = "dropWhile is_space s"
  let ?r = "rev (takeWhile is_space (rev ?m))"
  have "?m = py_strip s @ ?r"
    unfolding py_strip_def by (metis rev_append rev_rev_ident takeWhile_dropWhile_id)
  then have "s = ?l @ py_strip s @ ?r"
    by (metis takeWhile_dropWhile_id)
  moreover have "list_all is_space ?l"
    by (simp add: list_all_iff) (meson set_takeWhileD)
  moreover have "list_all is_space ?r"
    by (simp add: list_all_iff) (meson set_takeWhileD)
  ultimately show ?thesis by blast
qed

lemma py_strip_ends:
  "py_strip s \<noteq> [] \<Longrightarrow> \<not> is_space (hd (py_strip s)) \<and> \<not> is_space (last (py_strip s))"
proof -
  assume ne: "py_strip s \<noteq> []"
  let ?m = "dropWhile is_space s"
  let ?d = "dropWhile is_space (rev ?m)"
  from ne have d: "?d \<noteq> []" by (simp add: py_strip_def)
  then have 1: "\<not> is_space (hd ?d)" by (rule hd_dropWhile)
  have last: "last (py_strip s) = hd ?d" using d by (simp add: py_strip_def last_rev)
  have "?m \<noteq> []" using d by (cases "?m") auto
  then have 2: "\<not> is_space (hd ?m)" by (rule hd_dropWhile)
  have "hd (py_strip s) = last ?d" using d by (simp add: py_strip_def hd_rev)
  also have "\<dots> = last (rev ?m)"
    using d by (metis append_is_Nil_conv last_appendR takeWhile_dropWhile_id)
  also have "\<dots> = hd ?m" using \<open>?m \<noteq> []\<close> by (simp add: last_rev)
  finally show ?thesis using 1 2 last by simp
qed


lemma set_py_strip: "set (py_strip s) \<subseteq> set s"
proof -
  have "set (py_strip s) \<subseteq> set (dropWhile is_space s)"
    unfolding py_strip_def by (auto dest: set_dropWhileD)
  then show ?thesis by (auto dest: set_dropWhileD)
qed

text \<open>
  C3. \<open>is_valid_phone\<close> is meant to accept exactly the strings of the form
  \<open>(XXX)XXX-XXXX\<close>. The string made of a well-formed number followed by a line feed is
  not of that form, and \<open>is_valid_phone\<close> accepts it: \<open>$\<close> also holds before a final
  line feed.
\<close>

theorem is_valid_phone_trailing_newline:
  "is_valid_phone (''(555)123-4567'' @ [LF]) \<and> \<not> phone_format (''(555)123-4567'' @ [LF])"
  by (simp add: is_valid_phone_iff) (simp add: phone_format_def is_digit_def)

subsection \<open>Names\<close>

text \<open>
  C4, as the claim states it: normalization title-cases every whitespace-separated token,
  first character upper, remainder lower. On \<open>anne-marie\<close> that would give
  \<open>Anne-marie\<close>; the program gives \<open>Anne-Marie\<close>.
\<close>

theorem normalize_name_token_counterexample:
  "normalize_name ''anne-marie'' = ''Anne-Marie'' \<and>
   spec_normalize_name ''anne-marie'' = ''Anne-marie'' \<and>
   normalize_name ''anne-marie'' \<noteq> spec_normalize_name ''anne-marie''"
  by (simp add: normalize_name_def spec_normalize_name_def py_title_def py_strip_def
      is_space_def is_cased_def to_upper_def to_lower_def lowers_def uppers_def)

text \<open>
  C4, amended: on an ASCII string, normalization trims the whitespace at both ends and
  then title-cases every maximal run of letters: a character that follows a letter is put
  in lower case, any other character in upper case (which leaves a character that is not
  a letter as it is), so a token is split at every character that is not a letter, not
  only at whitespace. The length and the spacing are kept. On a name made of letters and
  whitespace only this is the title-casing of every whitespace-separated token, and
  \<open>"  john   SMITH "\<close> becomes \<open>"John   Smith"\<close>.
\<close>

theorem normalize_name_letter_runs:
  assumes "is_ascii s"
  shows "length (normalize_name s) = length (py_strip s) \<and>
   (\<forall>i < length (py_strip s).
      normalize_name s ! i =
        (if 0 < i \<and> is_cased (py_strip s ! (i - 1)) then to_lower (py_strip s ! i)
         else to_upper (py_strip s ! i))) \<and>
   (\<exists>l r. s = l @ py_strip s @ r \<and> list_all is_space l \<and> list_all is_space r) \<and>
   (py_strip s \<noteq> [] \<longrightarrow> \<not> is_space (hd (py_strip s)) \<and> \<not> is_space (last (py_strip s))) \<and>
   ((\<forall>c\<in>set s. is_cased c \<or> is_space c) \<longrightarrow> normalize_name s = spec_normalize_name s) \<and>
   normalize_name ''  john   SMITH '' = ''John   Smith''"
proof -
  have 1: "length (normalize_name s) = length (py_strip s)"
    by (simp add: normalize_name_def py_title_def length_do_title)
  have 2: "\<forall>i < length (py_strip s).
      normalize_name s ! i =
        (if 0 < i \<and> is_cased (py_strip s ! (i - 1)) then to_lower (py_strip s ! i)
         else to_upper (py_strip s ! i))"
    by (simp add: normalize_name_def py_title_def nth_do_title)
  have 3: "(\<forall>c\<in>set s. is_cased c \<or> is_space c) \<longrightarrow> normalize_name s = spec_normalize_name s"
  proof
    assume "\<forall>c\<in>set s. is_cased c \<or> is_space c"
    with set_py_strip [of s] have "\<forall>c\<in>set (py_strip s). is_cased c \<or> is_space c" by blast
    from do_title_spec_title [OF this, of False] show "normalize_name s = spec_normalize_name s"
      by (simp add: normalize_name_def spec_normalize_name_def py_title_def)
  qed
  have 4: "normalize_name ''  john   SMITH '' = ''John   Smith''"
    by (simp add: normalize_name_def py_title_def py_strip_def
        is_space_def is_cased_def to_upper_def to_lower_def lowers_def uppers_def)
  from 1 2 3 4 py_strip_decomp [of s] py_strip_ends [of s] show ?thesis by blast
qed

theorem normalize_name_letter_runs_witness:
  "is_ascii ''  mary-ann  '' \<and> is_ascii ''  john   SMITH '' \<and>
   (4::nat) < length (py_strip ''  mary-ann  '') \<and> py_strip ''  mary-ann  '' \<noteq> [] \<and>
   normalize_name ''  mary-ann  '' ! 4 = CHR ''-'' \<and>
   normalize_name ''  mary-ann  '' ! 5 = CHR ''A'' \<and>
   \<not> is_space (hd (py_strip ''  mary-ann  '')) \<and>
   list_all (\<lambda>c. is_cased c \<or> is_space c) ''  john   SMITH '' \<and>
   normalize_name ''  john   SMITH '' = spec_normalize_name ''  john   SMITH ''"
proof -
  have strip: "py_strip ''  mary-ann  '' = ''mary-ann''"
    by (simp add: py_strip_def is_space_def)
  have letters: "\<forall>c\<in>set ''  john   SMITH ''. is_cased c \<or> is_space c"
    by (simp add: is_cased_def is_space_def lowers_def uppers_def)
  have mary: "is_ascii ''  mary-ann  ''" and john: "is_ascii ''  john   SMITH ''"
    by (simp_all add: is_ascii_def)
  from normalize_name_letter_runs [OF mary]
  have "\<forall>i < length ''mary-ann''.
      normalize_name ''  mary-ann  '' ! i =
        (if 0 < i \<and> is_cased (''mary-ann'' ! (i - 1)) then to_lower (''mary-ann'' ! i)
         else to_upper (''mary-ann'' ! i))"
    and ends: "\<not> is_space (hd (py_strip ''  mary-ann  ''))"
    unfolding strip by simp_all
  then have "normalize_name ''  mary-ann  '' ! 4 = CHR ''-''"
    and "normalize_name ''  mary-ann  '' ! 5 = CHR ''A''"
    by (simp_all add: is_cased_def to_upper_def to_lower_def lowers_def uppers_def)
  moreover from normalize_name_letter_runs [OF john] letters
  have "normalize_name ''  john   SMITH '' = spec_normalize_name ''  john   SMITH ''"
    by blast
  ultimately show ?thesis using strip letters ends mary john by (simp add: list_all_iff)
qed

section \<open>Properties of the store operations\<close>

lemma py_input_Cons:
  "stdin w = l # ls \<Longrightarrow> py_input prompt w = Return l (w\<lparr>stdin := ls, stdout := stdout w @ prompt\<rparr>)"
  by (simp add: py_input_def)

lemma is_contact_field:
  assumes "is_contact c" and "key \<in> {''Full Name'', ''phone'', ''email''}"
  shows "\<exists>s. items c key = Some (Str s)"
proof -
  from assms have "key \<in> dom (items c)" by (simp add: is_contact_def)
  then obtain v where v: "items c key = Some v" by blast
  with assms have "v \<noteq> PyNone" by (auto simp: is_contact_def ran_def)
  with v show ?thesis by (cases v) auto
qed

lemma is_contact_mk_contact: "is_contact (mk_contact n p e)"
  by (auto simp: is_contact_def mk_contact_def ran_def)

lemma getitem_name: "is_contact c \<Longrightarrow> \<exists>n. getitem c ''Full Name'' = Inr (Str n)"
  using is_contact_field [of c "''Full Name''"] by (auto simp: getitem_def)

lemma remove_loop_no_match:
  "\<forall>c\<in>set cs. is_contact c \<and> items c ''Full Name'' \<noteq> Some (Str name) \<Longrightarrow>
   remove_loop name cs contacts w = Return contacts (py_print (not_found_msg name) w)"
proof (induction cs)
  case Nil
  then show ?case by simp
next
  case (Cons c cs)
  then obtain n where "getitem c ''Full Name'' = Inr (Str n)" "n \<noteq> name"
    using getitem_name [of c] by (auto simp: getitem_def split: option.splits)
  with Cons show ?case by simp
qed

lemma update_loop_no_match:
  "\<forall>c\<in>set cs. is_contact c \<and> items c ''Full Name'' \<noteq> Some (Str name) \<Longrightarrow>
   update_loop name visited cs w = Return (visited @ cs) (py_print (not_found_msg name) w)"
proof (induction cs arbitrary: visited)
  case Nil
  then show ?case by simp
next
  case (Cons c cs)
  then obtain n where "getitem c ''Full Name'' = Inr (Str n)" "n \<noteq> name"
    using getitem_name [of c] by (auto simp: getitem_def split: option.splits)
  with Cons.prems Cons.IH [of "visited @ [c]"] show ?case by simp
qed

lemma remove_loop_match:
  assumes "\<forall>d\<in>set pre. is_contact d \<and> items d ''Full Name'' \<noteq> Some (Str name)"
    and "items c ''Full Name'' = Some (Str name)"
  shows "remove_loop name (pre @ c # post) contacts w =
         Return (remove1 c contacts) (py_print (removed_msg name) w)"
  using assms(1)
proof (induction pre)
  case Nil
  with assms(2) show ?case by (simp add: getitem_def)
next
  case (Cons d pre)
  then obtain n where "getitem d ''Full Name'' = Inr (Str n)" "n \<noteq> name"
    using getitem_name [of d] by (auto simp: getitem_def split: option.splits)
  with Cons show ?case by simp
qed

lemma update_loop_match:
  assumes "\<forall>d\<in>set pre. is_contact d \<and> items d ''Full Name'' \<noteq> Some (Str name)"
    and "items c ''Full Name'' = Some (Str name)"
  shows "update_loop name visited (pre @ c # post) w =
         bind (py_input update_prompt w) (\<lambda>l w1.
         bind (phone_loop update_prompt (py_strip l) w1) (\<lambda>new_phone w2.
           Return ((visited @ pre) @ set_phone c new_phone # post)
                  (py_print (updated_msg name) w2)))"
  using assms(1)
proof (induction pre arbitrary: visited)
  case Nil
  from assms(2) have "getitem c ''Full Name'' = Inr (Str name)" by (simp add: getitem_def)
  then show ?case by simp
next
  case (Cons d pre)
  then obtain n where "getitem d ''Full Name'' = Inr (Str n)" "n \<noteq> name"
    using getitem_name [of d] by (auto simp: getitem_def split: option.splits)
  with Cons.prems Cons.IH [of "visited @ [d]"] show ?case by simp
qed

lemma phone_loop_valid: "is_valid_phone phone \<Longrightarrow> phone_loop prompt phone w = Return phone w"
  by (subst phone_loop.simps) simp

lemma phone_loop_returns_valid:
  "phone_loop prompt phone w = Return phone' w' \<Longrightarrow> is_valid_phone phone'"
proof (induction prompt phone w rule: phone_loop.induct)
  case (1 prompt phone w)
  show ?case
  proof (cases "is_valid_phone phone")
    case True
    with "1.prems" show ?thesis by (subst (asm) phone_loop.simps) simp
  next
    case False
    with "1.prems" obtain l w1 where
      inp: "py_input prompt (py_print invalid_phone_msg w) = Return l w1"
      and rec: "phone_loop prompt (py_strip l) w1 = Return phone' w'"
      by (subst (asm) phone_loop.simps) (simp split: outcome.splits)
    from "1.IH" [OF False inp rec] show ?thesis .
  qed
qed

lemma email_loop_returns_valid:
  "email_loop email w = Return email' w' \<Longrightarrow> is_valid_email email'"
proof (induction email w rule: email_loop.induct)
  case (1 email w)
  show ?case
  proof (cases "\<not> py_in ''@'' email \<or> \<not> py_in ''.'' email")
    case False
    with "1.prems" show ?thesis
      by (subst (asm) email_loop.simps) (simp add: is_valid_email_def)
  next
    case True
    with "1.prems" obtain l w1 where
      inp: "py_input ''Enter email: ''
                (py_print (''Invalid email. It must contain '' @ [APOS] @ ''@'' @ [APOS] @
                           '' and '' @ [APOS] @ ''.'' @ [APOS] @ ''.'') w) = Return l w1"
      and rec: "email_loop (py_strip l) w1 = Return email' w'"
      by (subst (asm) email_loop.simps) (simp split: outcome.splits)
    from "1.IH" [OF True inp rec] show ?thesis .
  qed
qed


lemma remove1_not_in_prefix:
  "c \<notin> set pre \<Longrightarrow> remove1 c (pre @ c # post) = pre @ post"
  by (simp add: remove1_append)

lemma name_simps:
  "items (mk_contact n p e) ''Full Name'' = Some (Str n)"
  "items (mk_contact n p e) ''phone'' = Some (Str p)"
  "items (mk_contact n p e) ''email'' = Some (Str e)"
  by (simp_all add: mk_contact_def)

lemma normalize_john: "normalize_name '' john smith'' = ''John Smith''"
  by (simp add: normalize_name_def py_title_def py_strip_def
        is_space_def is_cased_def to_upper_def to_lower_def lowers_def uppers_def)
lemma normalize_bob: "normalize_name ''bob'' = ''Bob''"
  by (simp add: normalize_name_def py_title_def py_strip_def
        is_space_def is_cased_def to_upper_def to_lower_def lowers_def uppers_def)

lemma py_in_sublist: "py_in xs ys \<longleftrightarrow> sublist xs ys"
  by (induction ys) (auto simp: sublist_Cons_right)

lemma py_in_Nil: "py_in [] s"
  by (cases s) auto

lemma found_line_contact:
  assumes "is_contact c"
  shows "\<exists>line. found_line c = Inr line \<and> line @ [LF] = report_line c"
proof -
  from is_contact_field [OF assms, of "''Full Name''"] is_contact_field [OF assms, of "''phone''"]
    is_contact_field [OF assms, of "''email''"]
  obtain n p e where "items c ''Full Name'' = Some (Str n)" "items c ''phone'' = Some (Str p)"
    "items c ''email'' = Some (Str e)" by auto
  then show ?thesis
    by (simp add: found_line_def getitem_def report_line_def field_text_def)
qed

lemma search_loop_contacts:
  "\<forall>c\<in>set cs. is_contact c \<Longrightarrow>
   search_loop t cs found w =
     Return (found \<or> filter (matches_term t) cs \<noteq> [])
            (w\<lparr>stdout := stdout w @ concat (map report_line (filter (matches_term t) cs))\<rparr>)"
proof (induction cs arbitrary: found w)
  case Nil
  then show ?case by simp
next
  case (Cons c cs)
  then have c: "is_contact c" and IH: "\<And>found w. search_loop t cs found w =
     Return (found \<or> filter (matches_term t) cs \<noteq> [])
            (w\<lparr>stdout := stdout w @ concat (map report_line (filter (matches_term t) cs))\<rparr>)"
    by simp_all
  from is_contact_field [OF c, of "''Full Name''"]
  obtain n where n: "items c ''Full Name'' = Some (Str n)" by auto
  then have g: "getitem c ''Full Name'' = Inr (Str n)" by (simp add: getitem_def)
  from found_line_contact [OF c] obtain line where
    line: "found_line c = Inr line" "line @ [LF] = report_line c" by blast
  show ?case
  proof (cases "py_in t (py_lower n)")
    case True
    then have "matches_term t c" using n by (simp add: matches_term_def)
    with True g line show ?thesis
      by (simp add: IH py_print_def)
  next
    case False
    then have "\<not> matches_term t c" using n by (simp add: matches_term_def)
    with False g show ?thesis by (simp add: IH)
  qed
qed

lemma search_contact_contacts:
  assumes "stdin w = l # ls" and "\<forall>c\<in>set store. is_contact c"
  shows "search_contact store w =
     Return () (w\<lparr>stdin := ls,
                  stdout := stdout w @ ''Enter the name of the contact to search for: '' @
                            search_report (filter (matches_term (py_lower (py_strip l))) store)\<rparr>)"
  using assms(1)
  by (simp add: search_contact_def py_input_Cons search_loop_contacts [OF assms(2)]
      search_report_def py_print_def)

section \<open>The claims about the store operations\<close>

text \<open>
  C7. When the persisted file is absent, \<open>load_contacts\<close> returns the empty list: it
  does not raise, it prints one line of warning and changes nothing else. The caller
  \<open>main\<close> takes what is returned as its store.
\<close>

theorem load_contacts_absent_file:
  "files w filename = None \<Longrightarrow>
   load_contacts filename w =
     Return [] (py_print (''File '' @ filename @
                          '' not found. Starting with an empty contact list.'') w)"
  by (simp add: load_contacts_def)

theorem load_contacts_absent_file_witness:
  "files (console []) ''contacts.csv'' = None \<and>
   load_contacts ''contacts.csv'' (console []) =
     Return [] \<lparr>stdin = [],
                stdout = ''File contacts.csv not found. Starting with an empty contact list.'' @ [LF],
                files = Map.empty\<rparr>"
  using load_contacts_absent_file [of "console []" "''contacts.csv''"]
  by (simp add: py_print_def console_def)

text \<open>
  C9. When no contact of the store has the normalized name that was typed in, remove and
  update both print the not-found message and return the store as it was. The name typed
  in is ASCII.
\<close>

theorem lookup_miss_no_change:
  assumes "stdin w = l # ls"
    and "\<forall>c\<in>set contacts. is_contact c \<and> items c ''Full Name'' \<noteq> Some (Str (normalize_name l))"
    and "is_ascii l"
  shows "remove_contact contacts w =
           Return contacts
             (py_print (not_found_msg (normalize_name l))
                (w\<lparr>stdin := ls, stdout := stdout w @ ''Enter the name of the contact to remove: ''\<rparr>)) \<and>
         update_contact contacts w =
           Return contacts
             (py_print (not_found_msg (normalize_name l))
                (w\<lparr>stdin := ls, stdout := stdout w @ ''Enter the name of the contact to update: ''\<rparr>))"
  using assms
  by (simp add: remove_contact_def update_contact_def py_input_Cons normalize_name_def [symmetric]
      remove_loop_no_match update_loop_no_match)

theorem lookup_miss_no_change_witness:
  "remove_contact [john1, jane] (console [''bob'']) =
     Return [john1, jane]
       \<lparr>stdin = [],
        stdout = ''Enter the name of the contact to remove: '' @
                 ''No contact found with the name '' @ [APOS] @ ''Bob'' @ [APOS] @ ''.'' @ [LF],
        files = Map.empty\<rparr> \<and>
   update_contact [john1, jane] (console [''bob'']) =
     Return [john1, jane]
       \<lparr>stdin = [],
        stdout = ''Enter the name of the contact to update: '' @
                 ''No contact found with the name '' @ [APOS] @ ''Bob'' @ [APOS] @ ''.'' @ [LF],
        files = Map.empty\<rparr>"
  using lookup_miss_no_change [of "console [''bob'']" "''bob''" "[]" "[john1, jane]"]
  by (simp add: normalize_bob john1_def jane_def is_contact_mk_contact name_simps
      py_print_def not_found_msg_def console_def is_ascii_def)

text \<open>
  C5. Remove deletes the first contact, in store order, whose full name is the
  normalized name that was typed in, prints that it was removed, and keeps every other
  contact in its place: the contacts before it, none of which has that name, and all the
  contacts after it, whatever their names. With two contacts named John Smith in the
  store, the first one goes and the second one stays. The name typed in is ASCII.
\<close>

theorem remove_contact_first_match:
  assumes "stdin w = l # ls"
    and "\<forall>d\<in>set pre. is_contact d \<and> items d ''Full Name'' \<noteq> Some (Str (normalize_name l))"
    and "items c ''Full Name'' = Some (Str (normalize_name l))"
    and "is_ascii l"
  shows "remove_contact (pre @ c # post) w =
           Return (pre @ post)
             (py_print (removed_msg (normalize_name l))
                (w\<lparr>stdin := ls, stdout := stdout w @ ''Enter the name of the contact to remove: ''\<rparr>))"
proof -
  from assms(2,3) have "c \<notin> set pre" by auto
  then have "remove1 c (pre @ c # post) = pre @ post" by (rule remove1_not_in_prefix)
  with assms(1-3) show ?thesis
    by (simp add: remove_contact_def py_input_Cons normalize_name_def [symmetric]
        remove_loop_match)
qed

theorem remove_contact_first_match_witness:
  "remove_contact [jane, john1, john2] (console ['' john smith'']) =
     Return [jane, john2]
       \<lparr>stdin = [],
        stdout = ''Enter the name of the contact to remove: '' @
                 ''Contact '' @ [APOS] @ ''John Smith'' @ [APOS] @ '' removed successfully.'' @ [LF],
        files = Map.empty\<rparr> \<and>
   john1 \<noteq> john2"
proof -
  have "john1 \<noteq> john2"
    by (auto simp: john1_def john2_def mk_contact_def dest!: fun_cong [of _ _ "''phone''"])
  with remove_contact_first_match [of "console ['' john smith'']"
      "'' john smith''" "[]" "[jane]" john1 "[john2]"]
  show ?thesis
    by (simp add: normalize_john john1_def jane_def is_contact_mk_contact name_simps
      py_print_def removed_msg_def console_def is_ascii_def)
qed

text \<open>
  C6. Update, given a name and then a valid phone number, replaces the phone of the first
  contact whose full name is the normalized name and prints that it was updated. That
  contact keeps every other entry, its full name and its email among them, and every
  other contact of the store stays as it was and where it was. The name typed in is
  ASCII.
\<close>

theorem update_contact_phone_only:
  assumes "stdin w = l # p # ls"
    and "is_valid_phone (py_strip p)"
    and "\<forall>d\<in>set pre. is_contact d \<and> items d ''Full Name'' \<noteq> Some (Str (normalize_name l))"
    and "items c ''Full Name'' = Some (Str (normalize_name l))"
    and "is_ascii l"
  shows "update_contact (pre @ c # post) w =
           Return (pre @ set_phone c (py_strip p) # post)
             (py_print (updated_msg (normalize_name l))
                (w\<lparr>stdin := ls,
                   stdout := stdout w @ ''Enter the name of the contact to update: '' @ update_prompt\<rparr>)) \<and>
         items (set_phone c (py_strip p)) ''phone'' = Some (Str (py_strip p)) \<and>
         (\<forall>key. key \<noteq> ''phone'' \<longrightarrow> items (set_phone c (py_strip p)) key = items c key) \<and>
         rest (set_phone c (py_strip p)) = rest c"
proof -
  let ?w1 = "w\<lparr>stdin := p # ls, stdout := stdout w @ ''Enter the name of the contact to update: ''\<rparr>"
  have 1: "py_input ''Enter the name of the contact to update: '' w = Return l ?w1"
    using assms(1) by (simp add: py_input_def)
  have 2: "py_input update_prompt ?w1 =
    Return p (w\<lparr>stdin := ls,
                 stdout := stdout w @ ''Enter the name of the contact to update: '' @ update_prompt\<rparr>)"
    by (simp add: py_input_def)
  have "update_contact (pre @ c # post) w =
           Return (pre @ set_phone c (py_strip p) # post)
             (py_print (updated_msg (normalize_name l))
                (w\<lparr>stdin := ls,
                   stdout := stdout w @ ''Enter the name of the contact to update: '' @ update_prompt\<rparr>))"
    unfolding update_contact_def 1 bind.simps normalize_name_def [symmetric]
      update_loop_match [OF assms(3,4)] 2 phone_loop_valid [OF assms(2)]
    by simp
  then show ?thesis by (simp add: set_phone_def)
qed

theorem update_contact_phone_only_witness:
  "is_valid_phone (py_strip '' (555)999-0000 '') \<and>
   update_contact [jane, john1, john2] (console ['' john smith'', '' (555)999-0000 '']) =
     Return [jane, mk_contact ''John Smith'' ''(555)999-0000'' ''john@example.com'', john2]
       \<lparr>stdin = [],
        stdout = ''Enter the name of the contact to update: '' @
                 ''Enter the new phone number (Format: (XXX)XXX-XXXX): '' @
                 ''Phone number for '' @ [APOS] @ ''John Smith'' @ [APOS] @ '' updated successfully.'' @ [LF],
        files = Map.empty\<rparr>"
proof -
  have strip: "py_strip '' (555)999-0000 '' = ''(555)999-0000''"
    by (simp add: py_strip_def is_space_def)
  have valid: "is_valid_phone (py_strip '' (555)999-0000 '')"
    unfolding strip by (simp add: is_valid_phone_iff phone_format_def is_digit_def)
  have upd: "set_phone john1 ''(555)999-0000'' =
      mk_contact ''John Smith'' ''(555)999-0000'' ''john@example.com''"
    by (auto simp: set_phone_def john1_def mk_contact_def)
  have name: "items john1 ''Full Name'' = Some (Str (normalize_name '' john smith''))"
    by (simp add: normalize_john john1_def name_simps)
  have pre: "\<forall>d\<in>set [jane]. is_contact d \<and>
      items d ''Full Name'' \<noteq> Some (Str (normalize_name '' john smith''))"
    by (simp add: normalize_john jane_def is_contact_mk_contact name_simps)
  have inp: "stdin (console ['' john smith'', '' (555)999-0000 '']) =
      '' john smith'' # '' (555)999-0000 '' # []"
    by (simp add: console_def)
  have asc: "is_ascii '' john smith''"
    by (simp add: is_ascii_def)
  from update_contact_phone_only [OF inp valid pre name asc, of "[john2]"]
  have "update_contact ([jane] @ john1 # [john2]) (console ['' john smith'', '' (555)999-0000 '']) =
      Return ([jane] @ set_phone john1 (py_strip '' (555)999-0000 '') # [john2])
        (py_print (updated_msg (normalize_name '' john smith''))
          (console ['' john smith'', '' (555)999-0000 '']
             \<lparr>stdin := [],
                stdout := stdout (console ['' john smith'', '' (555)999-0000 '']) @
                  ''Enter the name of the contact to update: '' @ update_prompt\<rparr>))"
    by blast
  then show ?thesis
    using valid
    by (simp add: normalize_john strip upd py_print_def updated_msg_def update_prompt_def
        console_def)
qed

text \<open>
  C8, as the claim states it: for every search string, search reports the contacts whose
  full name contains that string, letter case ignored. With \<open>" smith"\<close> typed in, no full
  name of the store below contains the string (the only \<open>smith\<close> follows a \<open>k\<close>, not a
  space), and search reports Joe Blacksmith.
\<close>

theorem search_contact_untrimmed_counterexample:
  "search_contact [joe] (console ['' smith'']) =
     Return ()
       \<lparr>stdin = [],
        stdout = ''Enter the name of the contact to search for: '' @
                 ''Found: Joe Blacksmith, Phone: (555)222-3333, Email: joe@example.com'' @ [LF],
        files = Map.empty\<rparr> \<and>
   find_all_matching [joe] '' smith'' = []"
  by (simp add: search_contact_def console_def py_input_def py_print_def joe_def name_simps
      getitem_def found_line_def py_str_def find_all_matching_def matches_term_def
      py_strip_def is_space_def py_lower_def to_lower_def lowers_def uppers_def)

text \<open>
  C8, amended: search first trims the whitespace at both ends of the string that was
  typed in; it then reports, in store order, exactly the contacts whose full name
  contains the trimmed string, letter case ignored, or that no contact was found when
  there is none. Searching \<open>jo\<close> reports both John Smith and Jane Johnson. The string
  typed in and the full names of the store are ASCII.
\<close>

theorem search_contact_trimmed_term:
  assumes "stdin w = l # ls" and "\<forall>c\<in>set store. is_contact c"
    and "is_ascii l"
    and "\<forall>c\<in>set store. \<forall>n. items c ''Full Name'' = Some (Str n) \<longrightarrow> is_ascii n"
  shows "search_contact store w =
     Return () (w\<lparr>stdin := ls,
                  stdout := stdout w @ ''Enter the name of the contact to search for: '' @
                            search_report (find_all_matching store (py_strip l))\<rparr>)"
  using search_contact_contacts [OF assms(1,2)] by (simp add: find_all_matching_def)

theorem search_contact_trimmed_term_witness:
  "find_all_matching [john1, ann, jane] (py_strip '' JO '') = [john1, jane] \<and>
   find_all_matching [john1, ann, jane] ''jo'' = [john1, jane] \<and>
   search_contact [john1, ann, jane] (console ['' JO '']) =
     Return ()
       \<lparr>stdin = [],
        stdout = ''Enter the name of the contact to search for: '' @
                 ''Found: John Smith, Phone: (555)123-4567, Email: john@example.com'' @ [LF] @
                 ''Found: Jane Johnson, Phone: (555)000-1111, Email: jane@example.com'' @ [LF],
        files = Map.empty\<rparr>"
proof -
  have found: "find_all_matching [john1, ann, jane] (py_strip '' JO '') = [john1, jane]"
    by (simp add: find_all_matching_def matches_term_def john1_def ann_def jane_def name_simps
      py_strip_def is_space_def py_lower_def to_lower_def lowers_def uppers_def)
  have jo: "find_all_matching [john1, ann, jane] ''jo'' = [john1, jane]"
    by (simp add: find_all_matching_def matches_term_def john1_def ann_def jane_def name_simps
      py_lower_def to_lower_def lowers_def uppers_def)
  have names: "\<forall>c\<in>set [john1, ann, jane]. \<forall>n. items c ''Full Name'' = Some (Str n) \<longrightarrow> is_ascii n"
    by (simp add: john1_def ann_def jane_def name_simps is_ascii_def)
  have typed: "is_ascii '' JO ''"
    by (simp add: is_ascii_def)
  have store: "\<forall>c\<in>set [john1, ann, jane]. is_contact c"
    by (simp add: john1_def ann_def jane_def is_contact_mk_contact)
  have inp: "stdin (console ['' JO '']) = '' JO '' # []"
    by (simp add: console_def)
  from search_contact_trimmed_term [OF inp store typed names]
  show ?thesis
    unfolding found
    using jo
    by (simp add: console_def john1_def ann_def jane_def
        search_report_def report_line_def field_text_def name_simps py_str_def)
qed

text \<open>
  C10. When the string typed in is empty, or is made of whitespace only, search reports
  every contact of the store, in store order: the term has no minimum length, and the
  empty string is contained in every full name.
\<close>

theorem search_contact_blank_term:
  assumes "stdin w = l # ls" and "py_strip l = []" and "\<forall>c\<in>set store. is_contact c"
  shows "search_contact store w =
     Return () (w\<lparr>stdin := ls,
                  stdout := stdout w @ ''Enter the name of the contact to search for: '' @
                            search_report store\<rparr>)"
proof -
  have "filter (matches_term []) store = store"
  proof (rule filter_True, rule ballI)
    fix c assume "c \<in> set store"
    with assms(3) have "is_contact c" by blast
    from is_contact_field [OF this, of "''Full Name''"] show "matches_term [] c"
      by (auto simp: matches_term_def py_in_Nil)
  qed
  with search_contact_contacts [OF assms(1,3)] assms(2) show ?thesis
    by (simp add: py_lower_def)
qed

theorem search_contact_blank_term_witness:
  "py_strip ''  '' = [] \<and>
   search_contact [john1, joe] (console [''  '']) =
     Return ()
       \<lparr>stdin = [],
        stdout = ''Enter the name of the contact to search for: '' @
                 ''Found: John Smith, Phone: (555)123-4567, Email: john@example.com'' @ [LF] @
                 ''Found: Joe Blacksmith, Phone: (555)222-3333, Email: joe@example.com'' @ [LF],
        files = Map.empty\<rparr>"
proof -
  have blank: "py_strip ''  '' = []" by (simp add: py_strip_def is_space_def)
  from search_contact_blank_term [of "console [''  '']" "''  ''" "[]" "[john1, joe]", OF _ blank]
  show ?thesis
    using blank
    by (simp add: console_def is_contact_mk_contact john1_def joe_def
        search_report_def report_line_def field_text_def name_simps py_str_def)
qed

section \<open>The invariant of the store\<close>

lemma bind_Return:
  "bind m f = Return x w \<longleftrightarrow> (\<exists>y w1. m = Return y w1 \<and> f y w1 = Return x w)"
  by (cases m) auto

lemma py_in_single: "py_in [c] s \<longleftrightarrow> c \<in> set s"
  by (induction s) auto

lemma is_valid_email_lower: "is_valid_email e \<Longrightarrow> is_valid_email (py_lower e)"
proof -
  have "to_lower (CHR ''@'') = CHR ''@''" "to_lower (CHR ''.'') = CHR ''.''"
    by (simp_all add: to_lower_def uppers_def lowers_def)
  then have "CHR ''@'' \<in> set e \<Longrightarrow> CHR ''@'' \<in> to_lower ` set e"
    and "CHR ''.'' \<in> set e \<Longrightarrow> CHR ''.'' \<in> to_lower ` set e"
    by (metis imageI)+
  then show "is_valid_email e \<Longrightarrow> is_valid_email (py_lower e)"
    by (simp add: is_valid_email_def py_in_single py_lower_def)
qed

lemma valid_mk_contact:
  "valid_contact (mk_contact n p e) \<longleftrightarrow> is_valid_phone p \<and> is_valid_email e"
  by (simp add: valid_contact_def mk_contact_def)

lemma valid_set_phone:
  "valid_contact c \<Longrightarrow> is_valid_phone p \<Longrightarrow> valid_contact (set_phone c p)"
  by (simp add: valid_contact_def set_phone_def)

lemma add_contact_appends_valid:
  assumes "add_contact s w = Return s' w'"
  shows "\<exists>n p e. s' = s @ [mk_contact n p e] \<and> is_valid_phone p \<and> is_valid_email e"
proof -
  from assms obtain l1 w1 l2 w2 phone w3 l3 w4 email w5 where
    ph: "phone_loop add_prompt (py_strip l2) w2 = Return phone w3"
    and em: "email_loop (py_strip l3) w4 = Return email w5"
    and s': "s' = s @ [mk_contact (py_title (py_strip l1)) phone (py_lower email)]"
    unfolding add_contact_def bind_Return by blast
  from phone_loop_returns_valid [OF ph] is_valid_email_lower [OF email_loop_returns_valid [OF em]] s'
  show ?thesis by blast
qed

lemma update_loop_keeps_valid:
  "update_loop name visited cs w = Return s' w' \<Longrightarrow> list_all valid_contact (visited @ cs) \<Longrightarrow>
   list_all valid_contact s'"
proof (induction cs arbitrary: visited)
  case Nil
  then show ?case by auto
next
  case (Cons c cs)
  show ?case
  proof (cases "getitem c ''Full Name''")
    case (Inl e)
    with Cons.prems show ?thesis by simp
  next
    case (Inr v)
    show ?thesis
    proof (cases "v = Str name")
      case True
      with Inr Cons.prems(1) obtain l w1 new_phone w2 where
        ph: "phone_loop update_prompt (py_strip l) w1 = Return new_phone w2"
        and s': "s' = visited @ set_phone c new_phone # cs"
        by (auto simp: bind_Return)
      from Cons.prems(2) valid_set_phone [OF _ phone_loop_returns_valid [OF ph], of c] s'
      show ?thesis by simp
    next
      case False
      with Inr Cons.prems Cons.IH [of "visited @ [c]"] show ?thesis by simp
    qed
  qed
qed

lemma remove_loop_keeps_valid:
  "remove_loop name cs contacts w = Return s' w' \<Longrightarrow> list_all valid_contact contacts \<Longrightarrow>
   list_all valid_contact s'"
proof (induction cs)
  case Nil
  then show ?case by auto
next
  case (Cons c cs)
  have "list_all valid_contact (remove1 c contacts)"
    using Cons.prems(2) notin_set_remove1 [of _ contacts c] by (auto simp: list_all_iff)
  with Cons show ?case by (auto split: sum.splits if_splits)
qed

lemma bad_lines: "file_lines bad_file = [''Full Name,phone,email'' @ [LF], ''Bob,123,bob'' @ [LF]]"
  by (simp add: file_lines_def bad_file_def)

lemmas reader_defs = parse_reset_def parse_process_char_def start_field_def add_char_then_def
  parse_add_char_def parse_save_field_def field_limit_def

lemma row1: "iternext parse_reset ((''Full Name,phone,email'' @ [LF]) # ls) =
   Inr (Some ([''Full Name'', ''phone'', ''email''], ls))"
  by (simp add: reader_defs)

lemma row2: "iternext parse_reset ((''Bob,123,bob'' @ [LF]) # ls) =
   Inr (Some ([''Bob'', ''123'', ''bob''], ls))"
  by (simp add: reader_defs)

lemma row3: "iternext parse_reset [] = Inr None"
  by (simp add: reader_defs)

lemma bad_file_rows:
  "reader_rows (file_lines bad_file) = Inr [[''Full Name'', ''phone'', ''email''], [''Bob'', ''123'', ''bob'']]"
  unfolding bad_lines
  apply (subst reader_rows.simps, simp only: row1 sum.case option.case prod.case)
  apply (subst reader_rows.simps, simp only: row2 sum.case option.case prod.case)
  apply (subst reader_rows.simps, simp only: row3 sum.case option.case prod.case)
  done

text \<open>
  C1, as the claim states it: every contact of every reachable store passes the phone and
  the email predicate, decoding the file being one of the operations that validate. A
  session that starts with a file holding the row \<open>Bob,123,bob\<close> has that row as a
  contact of its first store: \<open>load_contacts\<close> appends every row as it is read.
\<close>

theorem load_contacts_unvalidated:
  "reachable ((console [])\<lparr>files := [''contacts.csv'' \<mapsto> bad_file]\<rparr>) [mk_contact ''Bob'' ''123'' ''bob''] \<and>
   \<not> list_all valid_contact [mk_contact ''Bob'' ''123'' ''bob'']"
proof -
  have "dict_reader (file_lines bad_file) = Inr [mk_contact ''Bob'' ''123'' ''bob'']"
    by (simp add: dict_reader_def bad_file_rows dict_row_def mk_contact_def)
  then have "load_contacts ''contacts.csv'' ((console [])\<lparr>files := [''contacts.csv'' \<mapsto> bad_file]\<rparr>) =
    Return [mk_contact ''Bob'' ''123'' ''bob''] ((console [])\<lparr>files := [''contacts.csv'' \<mapsto> bad_file]\<rparr>)"
    by (simp add: load_contacts_def)
  then have "reachable ((console [])\<lparr>files := [''contacts.csv'' \<mapsto> bad_file]\<rparr>) [mk_contact ''Bob'' ''123'' ''bob'']"
    by (rule reachable.loaded)
  moreover have "\<not> is_valid_phone ''123''"
    by (simp add: is_valid_phone_iff phone_format_def)
  ultimately show ?thesis by (simp add: valid_mk_contact)
qed

text \<open>
  C1, amended: add and update validate a phone or an email before it enters the store,
  and remove only deletes; \<open>load_contacts\<close> validates nothing. So when the contacts of the
  store that was loaded all pass the two predicates, as they do for the empty store of an
  absent file, so do the contacts of every store reachable from it.
\<close>

theorem reachable_valid:
  assumes "load_contacts ''contacts.csv'' w0 = Return s0 w1"
    and "list_all valid_contact s0"
    and "reachable w0 s"
  shows "list_all valid_contact s"
  using assms(3)
proof (induction rule: reachable.induct)
  case (loaded s w)
  with assms(1,2) show ?case by simp
next
  case (added s w s' w')
  from add_contact_appends_valid [OF added.hyps(3)] added.IH show ?case
    by (auto simp: valid_mk_contact)
next
  case (removed s w s' w')
  from removed.hyps(3) obtain l w1 where
    "remove_loop (py_title (py_strip l)) s s w1 = Return s' w'"
    by (auto simp: remove_contact_def bind_Return)
  from remove_loop_keeps_valid [OF this removed.IH] show ?case .
next
  case (updated s w s' w')
  from updated.hyps(3) obtain l w1 where
    "update_loop (py_title (py_strip l)) [] s w1 = Return s' w'"
    by (auto simp: update_contact_def bind_Return)
  from update_loop_keeps_valid [OF this] updated.IH show ?case by simp
qed

lemma email_loop_valid: "is_valid_email email \<Longrightarrow> email_loop email w = Return email w"
  by (subst email_loop.simps) (simp add: is_valid_email_def)

theorem reachable_valid_witness:
  "load_contacts ''contacts.csv'' (console []) =
     Return [] (py_print ''File contacts.csv not found. Starting with an empty contact list.''
                  (console [])) \<and>
   add_contact [] (console [''bob smith'', ''123'', '' (555)123-4567'', ''Bob@Example.com'']) =
     Return [mk_contact ''Bob Smith'' ''(555)123-4567'' ''bob@example.com'']
       \<lparr>stdin = [],
        stdout = ''Enter full name: '' @ ''Enter phone number (Format: (XXX)XXX-XXXX): '' @
                 ''Invalid phone format. Please follow the format (XXX)XXX-XXXX.'' @ [LF] @
                 ''Enter phone number (Format: (XXX)XXX-XXXX): '' @ ''Enter email: '' @
                 ''Contact added successfully!'' @ [LF],
        files = Map.empty\<rparr> \<and>
   reachable (console []) [mk_contact ''Bob Smith'' ''(555)123-4567'' ''bob@example.com''] \<and>
   list_all valid_contact [mk_contact ''Bob Smith'' ''(555)123-4567'' ''bob@example.com'']"
proof -
  let ?w = "console [''bob smith'', ''123'', '' (555)123-4567'', ''Bob@Example.com'']"
  let ?s = "[mk_contact ''Bob Smith'' ''(555)123-4567'' ''bob@example.com'']"
  have load: "load_contacts ''contacts.csv'' (console []) =
     Return [] (py_print ''File contacts.csv not found. Starting with an empty contact list.''
                  (console []))"
    by (simp add: load_contacts_def console_def)
  have bad: "\<not> is_valid_phone (py_strip ''123'')"
    by (simp add: is_valid_phone_iff phone_format_def py_strip_def is_space_def)
  have strip: "py_strip '' (555)123-4567'' = ''(555)123-4567''"
    by (simp add: py_strip_def is_space_def)
  have good: "is_valid_phone ''(555)123-4567''"
    by (simp add: is_valid_phone_iff phone_format_def is_digit_def)
  have mail: "py_strip ''Bob@Example.com'' = ''Bob@Example.com''"
    "is_valid_email ''Bob@Example.com''"
    "py_lower ''Bob@Example.com'' = ''bob@example.com''"
    by (simp_all add: py_strip_def is_space_def is_valid_email_def py_lower_def to_lower_def
        lowers_def uppers_def)
  have name: "py_title (py_strip ''bob smith'') = ''Bob Smith''"
    by (simp add: py_title_def py_strip_def is_space_def is_cased_def to_upper_def to_lower_def
        lowers_def uppers_def)
  have add: "add_contact [] ?w =
     Return ?s
       \<lparr>stdin = [],
        stdout = ''Enter full name: '' @ ''Enter phone number (Format: (XXX)XXX-XXXX): '' @
                 ''Invalid phone format. Please follow the format (XXX)XXX-XXXX.'' @ [LF] @
                 ''Enter phone number (Format: (XXX)XXX-XXXX): '' @ ''Enter email: '' @
                 ''Contact added successfully!'' @ [LF],
        files = Map.empty\<rparr>"
    unfolding add_contact_def
    apply (simp add: console_def py_input_def name)
    apply (subst phone_loop.simps)
    apply (simp add: bad py_input_def py_print_def add_prompt_def invalid_phone_msg_def strip
        phone_loop_valid [OF good] mail email_loop_valid)
    done
  have ascii: "list_all is_ascii (stdin ?w)"
    by (simp add: console_def is_ascii_def)
  have "reachable (console []) []"
    using load by (rule reachable.loaded)
  then have reach: "reachable (console []) ?s"
    using ascii add by (rule reachable.added)
  have "list_all valid_contact []" by simp
  from reachable_valid [OF load this reach] load add reach show ?thesis by simp
qed

section \<open>The round trip through the file\<close>

subsection \<open>The reader on the lines of a text\<close>

lemma split_lines_nonempty: "tail \<noteq> [] \<Longrightarrow> split_lines tail \<noteq> []"
  by (cases tail) (auto split: list.splits)

lemma iternext_char:
  assumes "c \<noteq> LF" and "tail \<noteq> []"
  shows "iternext r (split_lines (c # tail)) =
    (case parse_process_char r (Ch c) of Inl e \<Rightarrow> Inl e
     | Inr r' \<Rightarrow> iternext r' (split_lines tail))"
proof -
  from split_lines_nonempty [OF assms(2)] obtain l ls where ls: "split_lines tail = l # ls"
    by (cases "split_lines tail") auto
  with assms(1) have "split_lines (c # tail) = (c # l) # ls" by (simp add: split_lines.simps)
  with ls show ?thesis by (simp split: sum.splits)
qed

lemma iternext_LF:
  "iternext r (split_lines (LF # tail)) =
    (case parse_process_char r (Ch LF) of Inl e \<Rightarrow> Inl e
     | Inr r' \<Rightarrow>
        (case parse_process_char r' EOL of Inl e \<Rightarrow> Inl e
         | Inr r'' \<Rightarrow>
             if state r'' \<noteq> START_RECORD then iternext r'' (split_lines tail)
             else Inr (Some (parsed_fields r'', split_lines tail))))"
  by (simp add: split_lines.simps split: sum.splits)

declare split_lines.simps [simp del]

lemma limit_pos: "0 < field_limit"
  by (simp add: field_limit_def)

lemma in_field_chars:
  "\<forall>c\<in>set xs. c \<noteq> COMMA \<and> c \<noteq> LF \<and> c \<noteq> CR \<Longrightarrow>
   length fld + length xs \<le> field_limit \<Longrightarrow> tail \<noteq> [] \<Longrightarrow>
   iternext \<lparr>state = IN_FIELD, parsed_fields = fs, field = fld\<rparr> (split_lines (xs @ tail)) =
   iternext \<lparr>state = IN_FIELD, parsed_fields = fs, field = fld @ xs\<rparr> (split_lines tail)"
proof (induction xs arbitrary: fld)
  case Nil
  then show ?case by simp
next
  case (Cons c xs)
  from Cons.prems have c: "c \<noteq> COMMA" "c \<noteq> LF" "c \<noteq> CR" and len: "length fld < field_limit"
    by auto
  have "iternext \<lparr>state = IN_FIELD, parsed_fields = fs, field = fld\<rparr> (split_lines ((c # xs) @ tail)) =
        iternext \<lparr>state = IN_FIELD, parsed_fields = fs, field = fld @ [c]\<rparr> (split_lines (xs @ tail))"
    using c len Cons.prems(3)
    by (simp add: iternext_char parse_process_char_def parse_add_char_def)
  also have "\<dots> = iternext \<lparr>state = IN_FIELD, parsed_fields = fs, field = (fld @ [c]) @ xs\<rparr> (split_lines tail)"
    using Cons.prems by (intro Cons.IH) auto
  finally show ?case by simp
qed

lemma in_quoted_chars:
  "length fld + length f \<le> field_limit \<Longrightarrow> tail \<noteq> [] \<Longrightarrow>
   iternext \<lparr>state = IN_QUOTED_FIELD, parsed_fields = fs, field = fld\<rparr>
     (split_lines (double_quotes f @ tail)) =
   iternext \<lparr>state = IN_QUOTED_FIELD, parsed_fields = fs, field = fld @ f\<rparr> (split_lines tail)"
proof (induction f arbitrary: fld)
  case Nil
  then show ?case by simp
next
  case (Cons c f)
  from Cons.prems have len: "length fld < field_limit" by auto
  have ne: "double_quotes f @ tail \<noteq> []" using Cons.prems(2) by simp
  have "iternext \<lparr>state = IN_QUOTED_FIELD, parsed_fields = fs, field = fld\<rparr>
          (split_lines (double_quotes (c # f) @ tail)) =
        iternext \<lparr>state = IN_QUOTED_FIELD, parsed_fields = fs, field = fld @ [c]\<rparr>
          (split_lines (double_quotes f @ tail))"
  proof (cases "c = DQUOTE")
    case True
    then show ?thesis
      using len ne
      by (simp add: iternext_char parse_process_char_def parse_add_char_def add_char_then_def)
  next
    case False
    show ?thesis
    proof (cases "c = LF")
      case True
      then show ?thesis
        using len by (simp add: iternext_LF parse_process_char_def parse_add_char_def)
    next
      case False
      with \<open>c \<noteq> DQUOTE\<close> show ?thesis
        using len ne by (simp add: iternext_char parse_process_char_def parse_add_char_def)
    qed
  qed
  also have "\<dots> = iternext \<lparr>state = IN_QUOTED_FIELD, parsed_fields = fs, field = (fld @ [c]) @ f\<rparr>
      (split_lines tail)"
    using Cons.prems by (intro Cons.IH) auto
  finally show ?case by simp
qed

lemma plain_field:
  "\<not> list_ex needs_quotes f \<Longrightarrow>
   \<forall>c\<in>set f. c \<noteq> COMMA \<and> c \<noteq> DQUOTE \<and> c \<noteq> LF \<and> c \<noteq> CR"
  by (auto simp: list_ex_iff needs_quotes_def)

text \<open>One field, and the character after it, read from the start of a field.\<close>

lemma start_field_to_sep:
  assumes "length f \<le> field_limit" and "tail \<noteq> []"
  shows "iternext \<lparr>state = START_FIELD, parsed_fields = fs, field = []\<rparr>
           (split_lines (join_append f @ tail)) =
         (if list_ex needs_quotes f
          then iternext \<lparr>state = QUOTE_IN_QUOTED_FIELD, parsed_fields = fs, field = f\<rparr>
                 (split_lines tail)
          else if f = []
          then iternext \<lparr>state = START_FIELD, parsed_fields = fs, field = []\<rparr> (split_lines tail)
          else iternext \<lparr>state = IN_FIELD, parsed_fields = fs, field = f\<rparr> (split_lines tail))"
proof (cases "list_ex needs_quotes f")
  case True
  have "iternext \<lparr>state = START_FIELD, parsed_fields = fs, field = []\<rparr>
           (split_lines (join_append f @ tail)) =
        iternext \<lparr>state = IN_QUOTED_FIELD, parsed_fields = fs, field = []\<rparr>
           (split_lines (double_quotes f @ DQUOTE # tail))"
    using True by (simp add: join_append_def iternext_char parse_process_char_def start_field_def)
  also have "\<dots> = iternext \<lparr>state = IN_QUOTED_FIELD, parsed_fields = fs, field = [] @ f\<rparr>
           (split_lines (DQUOTE # tail))"
    using assms(1) by (intro in_quoted_chars) auto
  also have "\<dots> = iternext \<lparr>state = QUOTE_IN_QUOTED_FIELD, parsed_fields = fs, field = f\<rparr>
           (split_lines tail)"
    using assms(2) by (simp add: iternext_char parse_process_char_def)
  finally show ?thesis using True by simp
next
  case False
  note plain = plain_field [OF False]
  show ?thesis
  proof (cases f)
    case Nil
    with False show ?thesis by (simp add: join_append_def)
  next
    case (Cons c cs)
    with plain have c: "c \<noteq> COMMA" "c \<noteq> DQUOTE" "c \<noteq> LF" "c \<noteq> CR" by auto
    have "iternext \<lparr>state = START_FIELD, parsed_fields = fs, field = []\<rparr>
           (split_lines (join_append f @ tail)) =
          iternext \<lparr>state = IN_FIELD, parsed_fields = fs, field = [c]\<rparr>
           (split_lines (cs @ tail))"
      using False Cons c assms(2) limit_pos
      by (simp add: join_append_def iternext_char parse_process_char_def start_field_def
          add_char_then_def parse_add_char_def)
    also have "\<dots> = iternext \<lparr>state = IN_FIELD, parsed_fields = fs, field = [c] @ cs\<rparr>
           (split_lines tail)"
      using plain Cons assms by (intro in_field_chars) auto
    finally show ?thesis using False Cons by simp
  qed
qed

lemma field_then_comma:
  assumes "length f \<le> field_limit" and "tail \<noteq> []"
  shows "iternext \<lparr>state = START_FIELD, parsed_fields = fs, field = []\<rparr>
           (split_lines (join_append f @ COMMA # tail)) =
         iternext \<lparr>state = START_FIELD, parsed_fields = fs @ [f], field = []\<rparr>
           (split_lines tail)"
  using assms
  by (simp add: start_field_to_sep iternext_char parse_process_char_def start_field_def
      parse_save_field_def)

lemma field_then_LF:
  assumes "length f \<le> field_limit"
  shows "iternext \<lparr>state = START_FIELD, parsed_fields = fs, field = []\<rparr>
           (split_lines (join_append f @ LF # tail)) =
         Inr (Some (fs @ [f], split_lines tail))"
  using assms
  by (simp add: start_field_to_sep iternext_LF parse_process_char_def start_field_def
      parse_save_field_def)

lemma start_record_first_char:
  assumes "c \<noteq> LF" and "c \<noteq> CR" and "tail \<noteq> []"
  shows "iternext \<lparr>state = START_RECORD, parsed_fields = fs, field = fld\<rparr>
           (split_lines (c # tail)) =
         iternext \<lparr>state = START_FIELD, parsed_fields = fs, field = fld\<rparr>
           (split_lines (c # tail))"
  using assms by (simp add: iternext_char parse_process_char_def)

lemma join_append_hd:
  assumes "tail \<noteq> []"
  shows "\<exists>c t. join_append f @ COMMA # tail = c # t \<and> c \<noteq> LF \<and> c \<noteq> CR \<and> t \<noteq> []"
proof (cases "list_ex needs_quotes f")
  case True
  then show ?thesis by (simp add: join_append_def)
next
  case False
  from plain_field [OF this] show ?thesis
    using False assms by (cases f) (auto simp: join_append_def)
qed

text \<open>One row of three fields, read from a reset parser.\<close>

lemma read_row:
  assumes "length n \<le> field_limit" and "length p \<le> field_limit" and "length e \<le> field_limit"
  shows "iternext parse_reset (split_lines (join_fields [n, p, e] @ LF # tail)) =
         Inr (Some ([n, p, e], split_lines tail))"
proof -
  let ?t = "join_append p @ COMMA # join_append e @ LF # tail"
  have "?t \<noteq> []" by simp
  from join_append_hd [OF this, of n] obtain c t where
    ct: "join_append n @ COMMA # ?t = c # t" "c \<noteq> LF" "c \<noteq> CR" "t \<noteq> []"
    by blast
  have "iternext parse_reset (split_lines (join_fields [n, p, e] @ LF # tail)) =
        iternext \<lparr>state = START_RECORD, parsed_fields = [], field = []\<rparr>
          (split_lines (join_append n @ COMMA # ?t))"
    by (simp add: parse_reset_def)
  also have "\<dots> = iternext \<lparr>state = START_FIELD, parsed_fields = [], field = []\<rparr>
          (split_lines (join_append n @ COMMA # ?t))"
    unfolding ct(1) using ct(2-4) by (rule start_record_first_char)
  also have "\<dots> = iternext \<lparr>state = START_FIELD, parsed_fields = [] @ [n], field = []\<rparr>
          (split_lines ?t)"
    using assms(1) by (intro field_then_comma) auto
  also have "\<dots> = iternext \<lparr>state = START_FIELD, parsed_fields = ([] @ [n]) @ [p], field = []\<rparr>
          (split_lines (join_append e @ LF # tail))"
    using assms(2) by (intro field_then_comma) auto
  also have "\<dots> = Inr (Some ((([] @ [n]) @ [p]) @ [e], split_lines tail))"
    using assms(3) by (rule field_then_LF)
  finally show ?thesis by simp
qed

text \<open>All the rows of a text in which every row has three fields.\<close>

lemma read_rows:
  "\<forall>row\<in>set rows. \<exists>n p e. row = [n, p, e] \<and>
      length n \<le> field_limit \<and> length p \<le> field_limit \<and> length e \<le> field_limit \<Longrightarrow>
   reader_rows (split_lines (concat (map (\<lambda>row. join_fields row @ [LF]) rows))) = Inr rows"
proof (induction rows)
  case Nil
  show ?case
    by (subst reader_rows.simps) (simp add: split_lines.simps parse_reset_def)
next
  case (Cons row rows)
  then obtain n p e where row: "row = [n, p, e]"
    and len: "length n \<le> field_limit" "length p \<le> field_limit" "length e \<le> field_limit"
    by auto
  let ?tail = "concat (map (\<lambda>row. join_fields row @ [LF]) rows)"
  have "iternext parse_reset (split_lines (join_fields [n, p, e] @ LF # ?tail)) =
        Inr (Some ([n, p, e], split_lines ?tail))"
    using len by (rule read_row)
  moreover have "reader_rows (split_lines ?tail) = Inr rows"
    using Cons.prems by (intro Cons.IH) auto
  ultimately show ?case
    unfolding row by (subst reader_rows.simps) simp
qed

subsection \<open>What is written, as it is read back\<close>

lemma translate_newlines_CRLF:
  "CR \<notin> set a \<Longrightarrow> translate_newlines (a @ CR # LF # b) = a @ LF # translate_newlines b"
  by (induction a) auto

lemma set_double_quotes: "set (double_quotes f) \<subseteq> insert DQUOTE (set f)"
  by (induction f) auto

lemma set_join_append: "set (join_append f) \<subseteq> insert DQUOTE (set f)"
  using set_double_quotes [of f] by (auto simp: join_append_def)

lemma join_fields_no_CR:
  assumes "CR \<notin> set n" and "CR \<notin> set p" and "CR \<notin> set e"
  shows "CR \<notin> set (join_fields [n, p, e])"
  using assms set_join_append [of n] set_join_append [of p] set_join_append [of e]
  by auto

lemma translate_rows:
  "\<forall>row\<in>set rows. \<exists>n p e. row = [n, p, e] \<and> CR \<notin> set n \<and> CR \<notin> set p \<and> CR \<notin> set e \<Longrightarrow>
   translate_newlines (concat (map writerow rows)) =
   concat (map (\<lambda>row. join_fields row @ [LF]) rows)"
proof (induction rows)
  case Nil
  then show ?case by simp
next
  case (Cons row rows)
  then obtain n p e where row: "row = [n, p, e]"
    and cr: "CR \<notin> set n" "CR \<notin> set p" "CR \<notin> set e"
    by auto
  have "writerow row = join_fields [n, p, e] @ [CR, LF]"
    by (simp add: writerow_def row)
  then have "translate_newlines (concat (map writerow (row # rows))) =
      join_fields [n, p, e] @ LF # translate_newlines (concat (map writerow rows))"
    using translate_newlines_CRLF [OF join_fields_no_CR [OF cr]] by simp
  with Cons show ?case by (simp add: row)
qed

lemma csv_safe_row:
  assumes "csv_safe c"
  shows "\<exists>n p e. dict_to_list c = Inr [n, p, e] \<and> dict_row fieldnames [n, p, e] = c \<and>
           CR \<notin> set n \<and> CR \<notin> set p \<and> CR \<notin> set e \<and>
           length n \<le> field_limit \<and> length p \<le> field_limit \<and> length e \<le> field_limit"
proof -
  from assms have c: "rest c = None" "dom (items c) = {''Full Name'', ''phone'', ''email''}"
    by (simp_all add: csv_safe_def is_contact_def)
  from assms obtain n p e where
    np: "items c ''Full Name'' = Some (Str n)" "items c ''phone'' = Some (Str p)"
        "items c ''email'' = Some (Str e)"
    and ok: "CR \<notin> set n" "CR \<notin> set p" "CR \<notin> set e"
        "length n \<le> field_limit" "length p \<le> field_limit" "length e \<le> field_limit"
    by (auto simp: csv_safe_def fieldnames_def split: option.splits pyval.splits)
  have "dict_to_list c = Inr [n, p, e]"
    using c np by (simp add: dict_to_list_def fieldnames_def)
  moreover have "items c = [''Full Name'' \<mapsto> Str n, ''phone'' \<mapsto> Str p, ''email'' \<mapsto> Str e]"
  proof
    fix key
    show "items c key = [''Full Name'' \<mapsto> Str n, ''phone'' \<mapsto> Str p, ''email'' \<mapsto> Str e] key"
    proof (cases "key \<in> {''Full Name'', ''phone'', ''email''}")
      case True
      with np show ?thesis by auto
    next
      case False
      with c(2) have "items c key = None" by blast
      with False show ?thesis by simp
    qed
  qed
  then have "dict_row fieldnames [n, p, e] = c"
    using c(1) by (simp add: dict_row_def fieldnames_def)
  ultimately show ?thesis using ok by blast
qed

lemma write_rows_safe:
  "\<forall>c\<in>set S. csv_safe c \<Longrightarrow>
   \<exists>rows. write_rows S filename sofar w =
             Return () (write_file filename (sofar @ concat (map writerow rows)) w) \<and>
           map (dict_row fieldnames) rows = S \<and>
           (\<forall>row\<in>set rows. \<exists>n p e. row = [n, p, e] \<and>
              CR \<notin> set n \<and> CR \<notin> set p \<and> CR \<notin> set e \<and>
              length n \<le> field_limit \<and> length p \<le> field_limit \<and> length e \<le> field_limit)"
proof (induction S arbitrary: sofar)
  case Nil
  show ?case by (rule exI [of _ "[]"]) simp
next
  case (Cons c S)
  from Cons.prems have "csv_safe c" by simp
  from csv_safe_row [OF this] obtain n p e where
    row: "dict_to_list c = Inr [n, p, e]" "dict_row fieldnames [n, p, e] = c"
    and ok: "CR \<notin> set n" "CR \<notin> set p" "CR \<notin> set e"
        "length n \<le> field_limit" "length p \<le> field_limit" "length e \<le> field_limit"
    by blast
  from Cons.prems have "\<forall>c\<in>set S. csv_safe c" by simp
  from Cons.IH [OF this, of "sofar @ writerow [n, p, e]"] obtain rows where
    rows: "write_rows S filename (sofar @ writerow [n, p, e]) w =
             Return () (write_file filename
               ((sofar @ writerow [n, p, e]) @ concat (map writerow rows)) w)"
      "map (dict_row fieldnames) rows = S"
      "\<forall>row\<in>set rows. \<exists>n p e. row = [n, p, e] \<and>
              CR \<notin> set n \<and> CR \<notin> set p \<and> CR \<notin> set e \<and>
              length n \<le> field_limit \<and> length p \<le> field_limit \<and> length e \<le> field_limit"
    by blast
  show ?case
    apply (rule exI [of _ "[n, p, e] # rows"])
    using row ok rows apply simp
    done
qed

text \<open>
  C2, amended: every sequence of contacts whose fields are ASCII strings without a
  carriage return and of at most 131072 characters is read back as it was written:
  \<open>save_contacts\<close> returns, and \<open>load_contacts\<close> on the file it wrote returns the same
  contacts in the same order, with the same full name, phone and email. Commas, quotes
  and line feeds in a field are handled by the quoting.
\<close>

theorem save_load_round_trip:
  assumes "\<forall>c\<in>set S. csv_safe c"
  shows "\<exists>text. save_contacts S filename w = Return () (write_file filename text w) \<and>
                load_contacts filename (write_file filename text w) =
                  Return S (write_file filename text w)"
proof -
  from write_rows_safe [OF assms, of filename "writerow fieldnames" w] obtain rows where
    save: "write_rows S filename (writerow fieldnames) w =
             Return () (write_file filename (writerow fieldnames @ concat (map writerow rows)) w)"
    and S: "map (dict_row fieldnames) rows = S"
    and ok: "\<forall>row\<in>set rows. \<exists>n p e. row = [n, p, e] \<and>
              CR \<notin> set n \<and> CR \<notin> set p \<and> CR \<notin> set e \<and>
              length n \<le> field_limit \<and> length p \<le> field_limit \<and> length e \<le> field_limit"
    by blast
  let ?text = "writerow fieldnames @ concat (map writerow rows)"
  let ?all = "fieldnames # rows"
  have all: "\<forall>row\<in>set ?all. \<exists>n p e. row = [n, p, e] \<and>
              CR \<notin> set n \<and> CR \<notin> set p \<and> CR \<notin> set e \<and>
              length n \<le> field_limit \<and> length p \<le> field_limit \<and> length e \<le> field_limit"
    using ok by (simp add: fieldnames_def field_limit_def)
  have "?text = concat (map writerow ?all)" by simp
  then have "file_lines ?text = split_lines (concat (map (\<lambda>row. join_fields row @ [LF]) ?all))"
    unfolding file_lines_def using translate_rows [of ?all] all by metis
  also have "reader_rows \<dots> = Inr ?all"
    using all by (intro read_rows) metis
  finally have rows: "reader_rows (file_lines ?text) = Inr ?all" .
  have "filter (\<lambda>row. row \<noteq> []) rows = rows"
    using ok by (intro filter_True) auto
  with rows S have "dict_reader (file_lines ?text) = Inr S"
    by (simp add: dict_reader_def)
  then have "load_contacts filename (write_file filename ?text w) =
                  Return S (write_file filename ?text w)"
    by (simp add: load_contacts_def write_file_def)
  with save show ?thesis unfolding save_contacts_def by blast
qed

lemma field_too_long:
  assumes "\<not> list_ex needs_quotes f" and "field_limit < length f" and "tail \<noteq> []"
  shows "iternext \<lparr>state = START_FIELD, parsed_fields = fs, field = []\<rparr>
           (split_lines (f @ tail)) = Inl CsvError"
proof -
  let ?a = "take field_limit f" and ?c = "f ! field_limit" and ?b = "drop (Suc field_limit) f"
  from assms(2) have f: "f = ?a @ ?c # ?b" by (rule id_take_nth_drop)
  note plain = plain_field [OF assms(1)]
  from assms(2) have "?c \<in> set f" by simp
  with plain have c: "?c \<noteq> COMMA" "?c \<noteq> LF" "?c \<noteq> CR" by auto
  have a: "\<not> list_ex needs_quotes ?a"
    using assms(1) by (auto simp: list_ex_iff dest: in_set_takeD)
  have len: "length ?a = field_limit" using assms(2) by simp
  then have ne: "?a \<noteq> []" using limit_pos by auto
  have "iternext \<lparr>state = START_FIELD, parsed_fields = fs, field = []\<rparr>
           (split_lines (join_append ?a @ ?c # ?b @ tail)) =
        iternext \<lparr>state = IN_FIELD, parsed_fields = fs, field = ?a\<rparr>
           (split_lines (?c # ?b @ tail))"
    using a ne len by (subst start_field_to_sep) auto
  also have "\<dots> = Inl CsvError"
    using c len assms(3)
    by (simp add: iternext_char parse_process_char_def parse_add_char_def)
  finally have "iternext \<lparr>state = START_FIELD, parsed_fields = fs, field = []\<rparr>
           (split_lines ((?a @ ?c # ?b) @ tail)) = Inl CsvError"
    using a by (simp add: join_append_def)
  with f show ?thesis by metis
qed

lemma long_name_facts:
  "length long_name = 131073" "set long_name = {CHR ''a''}" "hd long_name = CHR ''a''"
  "long_name \<noteq> []"
  by (simp_all add: long_name_def hd_replicate)

lemma field_too_long_record:
  assumes "\<not> list_ex needs_quotes f" and "field_limit < length f" and "tail \<noteq> []"
  shows "iternext parse_reset (split_lines (f @ tail)) = Inl CsvError"
proof -
  from assms(2) obtain c cs where f: "f = c # cs" by (cases f) auto
  with plain_field [OF assms(1)] have c: "c \<noteq> LF" "c \<noteq> CR" by auto
  have "iternext parse_reset (split_lines (f @ tail)) =
        iternext \<lparr>state = START_FIELD, parsed_fields = [], field = []\<rparr> (split_lines (f @ tail))"
    unfolding parse_reset_def f append_Cons
    using c assms(3) by (intro start_record_first_char) auto
  with field_too_long [OF assms] show ?thesis by simp
qed

lemma long_name_plain: "\<not> list_ex needs_quotes long_name"
  by (simp add: list_ex_iff long_name_facts needs_quotes_def)

lemma long_row_rejected:
  "reader_rows (file_lines (writerow fieldnames @
      writerow [long_name, ''(555)123-4567'', ''a@b.c''])) = Inl CsvError"
proof -
  let ?row = "[long_name, ''(555)123-4567'', ''a@b.c'']"
  let ?tail = "COMMA # join_fields [''(555)123-4567'', ''a@b.c''] @ [LF]"
  have "translate_newlines (concat (map writerow [fieldnames, ?row])) =
        concat (map (\<lambda>row. join_fields row @ [LF]) [fieldnames, ?row])"
    by (rule translate_rows) (simp add: fieldnames_def long_name_facts)
  then have lines: "file_lines (writerow fieldnames @ writerow ?row) =
      split_lines (join_fields [''Full Name'', ''phone'', ''email''] @ LF # long_name @ ?tail)"
    using long_name_plain by (simp add: file_lines_def fieldnames_def join_append_def)
  have header: "iternext parse_reset
      (split_lines (join_fields [''Full Name'', ''phone'', ''email''] @ LF # long_name @ ?tail)) =
      Inr (Some ([''Full Name'', ''phone'', ''email''], split_lines (long_name @ ?tail)))"
    by (rule read_row) (simp_all add: field_limit_def)
  have long: "iternext parse_reset (split_lines (long_name @ ?tail)) = Inl CsvError"
    by (rule field_too_long_record [OF long_name_plain])
       (simp_all add: long_name_facts field_limit_def)
  have "reader_rows (split_lines (long_name @ ?tail)) = Inl CsvError"
    by (subst reader_rows.simps) (simp only: long sum.case)
  then show ?thesis
    unfolding lines by (subst reader_rows.simps) (simp only: header sum.case option.case prod.case)
qed

text \<open>
  C2, as the claim states it: every sequence of valid contacts whose fields hold no
  character that the quoting rule does not handle is read back as it was written. A
  contact whose name is the letter \<open>a\<close> 131073 times is valid and needs no quoting; it is
  written, and reading the file raises \<open>csv.Error\<close>: the reader refuses a field longer
  than its field size limit of 131072 characters.
\<close>

theorem long_field_not_read_back:
  "is_contact long_contact \<and> valid_contact long_contact \<and>
   \<not> list_ex needs_quotes long_name \<and>
   save_contacts [long_contact] ''contacts.csv'' (console []) =
     Return () (write_file ''contacts.csv''
                  (writerow fieldnames @ writerow [long_name, ''(555)123-4567'', ''a@b.c''])
                  (console [])) \<and>
   load_contacts ''contacts.csv''
     (write_file ''contacts.csv''
        (writerow fieldnames @ writerow [long_name, ''(555)123-4567'', ''a@b.c'']) (console [])) =
     Raise CsvError
       (write_file ''contacts.csv''
          (writerow fieldnames @ writerow [long_name, ''(555)123-4567'', ''a@b.c'']) (console []))"
proof -
  have "valid_contact long_contact"
    by (simp add: long_contact_def valid_contact_def mk_contact_def is_valid_phone_iff
        phone_format_def is_digit_def is_valid_email_def)
  moreover have "save_contacts [long_contact] ''contacts.csv'' (console []) =
     Return () (write_file ''contacts.csv''
                  (writerow fieldnames @ writerow [long_name, ''(555)123-4567'', ''a@b.c''])
                  (console []))"
    by (simp add: save_contacts_def long_contact_def dict_to_list_def mk_contact_def
        fieldnames_def)
  moreover have "load_contacts ''contacts.csv''
     (write_file ''contacts.csv''
        (writerow fieldnames @ writerow [long_name, ''(555)123-4567'', ''a@b.c'']) (console [])) =
     Raise CsvError
       (write_file ''contacts.csv''
          (writerow fieldnames @ writerow [long_name, ''(555)123-4567'', ''a@b.c'']) (console []))"
    by (simp add: load_contacts_def write_file_def dict_reader_def long_row_rejected)
  ultimately show ?thesis
    using long_name_plain by (simp add: long_contact_def is_contact_mk_contact)
qed

theorem save_load_round_trip_witness:
  "list_all csv_safe [quoted_contact, jane] \<and>
   save_contacts [quoted_contact, jane] ''contacts.csv'' (console []) =
     Return () (write_file ''contacts.csv''
       (''Full Name,phone,email'' @ [CR, LF] @
        [DQUOTE] @ ''Smith, '' @ [DQUOTE, DQUOTE] @ ''Jo'' @ [DQUOTE, DQUOTE] @ [LF] @ ''Jr'' @
        [DQUOTE] @ '',(555)123-4567,jo@example.com'' @ [CR, LF] @
        ''Jane Johnson,(555)000-1111,jane@example.com'' @ [CR, LF])
       (console [])) \<and>
   load_contacts ''contacts.csv''
     (write_file ''contacts.csv''
       (''Full Name,phone,email'' @ [CR, LF] @
        [DQUOTE] @ ''Smith, '' @ [DQUOTE, DQUOTE] @ ''Jo'' @ [DQUOTE, DQUOTE] @ [LF] @ ''Jr'' @
        [DQUOTE] @ '',(555)123-4567,jo@example.com'' @ [CR, LF] @
        ''Jane Johnson,(555)000-1111,jane@example.com'' @ [CR, LF])
       (console [])) =
     Return [quoted_contact, jane]
       (write_file ''contacts.csv''
         (''Full Name,phone,email'' @ [CR, LF] @
          [DQUOTE] @ ''Smith, '' @ [DQUOTE, DQUOTE] @ ''Jo'' @ [DQUOTE, DQUOTE] @ [LF] @ ''Jr'' @
          [DQUOTE] @ '',(555)123-4567,jo@example.com'' @ [CR, LF] @
          ''Jane Johnson,(555)000-1111,jane@example.com'' @ [CR, LF])
         (console []))"
proof -
  let ?t = "''Full Name,phone,email'' @ [CR, LF] @
        [DQUOTE] @ ''Smith, '' @ [DQUOTE, DQUOTE] @ ''Jo'' @ [DQUOTE, DQUOTE] @ [LF] @ ''Jr'' @
        [DQUOTE] @ '',(555)123-4567,jo@example.com'' @ [CR, LF] @
        ''Jane Johnson,(555)000-1111,jane@example.com'' @ [CR, LF]"
  have safe: "\<forall>c\<in>set [quoted_contact, jane]. csv_safe c"
    by (simp add: csv_safe_def quoted_contact_def jane_def is_contact_mk_contact name_simps
        fieldnames_def is_ascii_def field_limit_def)
  have save: "save_contacts [quoted_contact, jane] ''contacts.csv'' (console []) =
      Return () (write_file ''contacts.csv'' ?t (console []))"
    by (simp add: save_contacts_def quoted_contact_def jane_def dict_to_list_def mk_contact_def
        fieldnames_def writerow_def join_append_def needs_quotes_def)
  from save_load_round_trip [OF safe, of "''contacts.csv''" "console []"] obtain written where
    "save_contacts [quoted_contact, jane] ''contacts.csv'' (console []) =
       Return () (write_file ''contacts.csv'' written (console []))"
    and load: "load_contacts ''contacts.csv'' (write_file ''contacts.csv'' written (console [])) =
       Return [quoted_contact, jane] (write_file ''contacts.csv'' written (console []))"
    by blast
  with save have "write_file ''contacts.csv'' written (console []) =
      write_file ''contacts.csv'' ?t (console [])"
    by simp
  with load have "load_contacts ''contacts.csv'' (write_file ''contacts.csv'' ?t (console [])) =
       Return [quoted_contact, jane] (write_file ''contacts.csv'' ?t (console []))"
    by simp
  with save safe show ?thesis by (simp add: list_all_iff)
qed

text \<open>
  A carriage return is outside the round trip: it is written as it is, within quotes,
  and \<open>load_contacts\<close>, which opens the file without \<open>newline=''\<close>, reads a line
  feed in its place.
\<close>

lemma carriage_return_read_as_line_feed:
  "save_contacts [mk_contact ''Bob'' ''(555)123-4567'' (''a@b.c'' @ [CR] @ ''d'')]
     ''contacts.csv'' (console []) =
     Return () (write_file ''contacts.csv''
       (''Full Name,phone,email'' @ [CR, LF] @
        ''Bob,(555)123-4567,'' @ [DQUOTE] @ ''a@b.c'' @ [CR] @ ''d'' @ [DQUOTE] @ [CR, LF])
       (console [])) \<and>
   load_contacts ''contacts.csv''
     (write_file ''contacts.csv''
       (''Full Name,phone,email'' @ [CR, LF] @
        ''Bob,(555)123-4567,'' @ [DQUOTE] @ ''a@b.c'' @ [CR] @ ''d'' @ [DQUOTE] @ [CR, LF])
       (console [])) =
     Return [mk_contact ''Bob'' ''(555)123-4567'' (''a@b.c'' @ [LF] @ ''d'')]
       (write_file ''contacts.csv''
         (''Full Name,phone,email'' @ [CR, LF] @
          ''Bob,(555)123-4567,'' @ [DQUOTE] @ ''a@b.c'' @ [CR] @ ''d'' @ [DQUOTE] @ [CR, LF])
         (console []))"
proof -
  let ?t = "''Full Name,phone,email'' @ [CR, LF] @
        ''Bob,(555)123-4567,'' @ [DQUOTE] @ ''a@b.c'' @ [CR] @ ''d'' @ [DQUOTE] @ [CR, LF]"
  have lines: "file_lines ?t =
    [''Full Name,phone,email'' @ [LF], ''Bob,(555)123-4567,'' @ [DQUOTE] @ ''a@b.c'' @ [LF],
     ''d'' @ [DQUOTE] @ [LF]]"
    by (simp add: file_lines_def split_lines.simps)
  have row: "iternext parse_reset
      [''Bob,(555)123-4567,'' @ [DQUOTE] @ ''a@b.c'' @ [LF], ''d'' @ [DQUOTE] @ [LF]] =
      Inr (Some ([''Bob'', ''(555)123-4567'', ''a@b.c'' @ [LF] @ ''d''], []))"
    by (simp add: reader_defs)
  have "reader_rows (file_lines ?t) =
      Inr [[''Full Name'', ''phone'', ''email''], [''Bob'', ''(555)123-4567'', ''a@b.c'' @ [LF] @ ''d'']]"
    unfolding lines
    apply (subst reader_rows.simps, simp only: row1 sum.case option.case prod.case)
    apply (subst reader_rows.simps, simp only: row sum.case option.case prod.case)
    apply (subst reader_rows.simps, simp only: row3 sum.case option.case prod.case)
    done
  then have "dict_reader (file_lines ?t) =
      Inr [mk_contact ''Bob'' ''(555)123-4567'' (''a@b.c'' @ [LF] @ ''d'')]"
    by (simp add: dict_reader_def dict_row_def mk_contact_def)
  then show ?thesis
    by (simp add: load_contacts_def write_file_def save_contacts_def dict_to_list_def
        mk_contact_def fieldnames_def writerow_def join_append_def needs_quotes_def)
qed

end
